theory Spec2Isabelle
  imports Main "HOL-Library.Word" "HOL-Library.Monad_Syntax"
begin

section \<open>The extractor contract\<close>

text \<open>
  Every stage of \<^verbatim>\<open>Streams.h\<close> is a class template over the type of its upstream
  extractor and offers two operations, \<^verbatim>\<open>advance()\<close> and \<^verbatim>\<open>get()\<close>, dispatched
  statically. The embedding follows the templates: the state of a stage is a record
  that is polymorphic in the state \<open>'s\<close> of its upstream, and the two operations of the
  upstream are passed as functions

    \<^item> \<open>adv :: 's \<Rightarrow> (bool \<times> 's) option\<close>: the flag \<^verbatim>\<open>advance()\<close> returns and the
      state it leaves; \<open>None\<close> is a call that never returns (the loops of
      \<^verbatim>\<open>SkipWhile\<close> and \<^verbatim>\<open>Filter\<close> and of the terminal operations run as long as
      their upstream keeps producing);
    \<^item> \<open>get :: 's \<Rightarrow> 'a \<times> 's\<close>: the element \<^verbatim>\<open>*get()\<close> points to and the state the
      call leaves (\<^verbatim>\<open>Map\<close> writes its slot, \<^verbatim>\<open>Inspect\<close> runs its callback).

  \<^verbatim>\<open>size_t\<close> is a 64-bit word.
\<close>

type_synonym size_t = "64 word"

type_synonym 's advance = "'s \<Rightarrow> (bool \<times> 's) option"

type_synonym ('s, 'a) get = "'s \<Rightarrow> 'a \<times> 's"

section \<open>SequenceStreamExtractor\<close>

text \<open>
  The four iterators are positions in the borrowed container, which the extractor
  never changes. \<^verbatim>\<open>get_impl\<close> returns the iterator \<^verbatim>\<open>current\<close>; its callers
  dereference it at once, so \<open>seq_get\<close> yields the element at that position. The
  source does not guard a dereference outside the container (undefined behaviour);
  there \<open>seq_get\<close> is the unspecified \<open>xs ! i\<close>, and \<open>seq_get_in_range\<close> below shows
  that the position is inside the container after every successful advance.
\<close>

record 'a SequenceStreamExtractor =
  seq_container :: "'a list"
  seq_current :: nat
  seq_next :: nat
  seq_begin :: nat
  seq_end :: nat

definition seq_get :: "('a SequenceStreamExtractor, 'a) get" where
  "seq_get s = (seq_container s ! seq_current s, s)"

definition seq_advance :: "'a SequenceStreamExtractor advance" where
  "seq_advance s =
     (if seq_next s \<noteq> seq_end s
      then Some (True, s\<lparr>seq_current := seq_next s, seq_next := seq_next s + 1\<rparr>)
      else Some (False, s))"

section \<open>SkipFirstStreamExtractor\<close>

record 's SkipFirstStreamExtractor =
  skip_source :: 's
  skipCount :: size_t

definition skip_get :: "('s, 'a) get \<Rightarrow> ('s SkipFirstStreamExtractor, 'a) get" where
  "skip_get get s = (case get (skip_source s) of (x, src) \<Rightarrow> (x, s\<lparr>skip_source := src\<rparr>))"

function skip_advance :: "'s advance \<Rightarrow> 's SkipFirstStreamExtractor advance" where
  "skip_advance adv s =
     (if skipCount s \<noteq> 0
      then (case adv (skip_source s) of
              None \<Rightarrow> None
            | Some (b, src) \<Rightarrow>
                if \<not> b then Some (False, s\<lparr>skip_source := src, skipCount := skipCount s - 1\<rparr>)
                else skip_advance adv (s\<lparr>skip_source := src, skipCount := skipCount s - 1\<rparr>))
      else (case adv (skip_source s) of
              None \<Rightarrow> None
            | Some (b, src) \<Rightarrow> Some (b, s\<lparr>skip_source := src\<rparr>)))"
  by pat_completeness auto
termination
  by (relation "measure (\<lambda>(adv, s). unat (skipCount s))") (auto simp: unat_minus_one unat_gt_0)

declare skip_advance.simps [simp del]

section \<open>SkipWhileStreamExtractor\<close>

record ('s, 'a) SkipWhileStreamExtractor =
  skipwhile_source :: 's
  skipwhile_predicate :: "'a \<Rightarrow> bool"
  skipping :: bool

definition skipwhile_get :: "('s, 'a) get \<Rightarrow> (('s, 'a) SkipWhileStreamExtractor, 'a) get" where
  "skipwhile_get get s =
     (case get (skipwhile_source s) of (x, src) \<Rightarrow> (x, s\<lparr>skipwhile_source := src\<rparr>))"

text \<open>The loop \<^verbatim>\<open>while (skipping && source.advance()) skipping = predicate(*source.get());\<close>\<close>

partial_function (option) skipwhile_loop ::
  "'s advance \<Rightarrow> ('s, 'a) get \<Rightarrow> ('s, 'a) SkipWhileStreamExtractor
     \<Rightarrow> ('s, 'a) SkipWhileStreamExtractor option" where
  "skipwhile_loop adv get s =
     (if skipping s
      then (case adv (skipwhile_source s) of
              None \<Rightarrow> None
            | Some (b, src) \<Rightarrow>
                if b
                then (case get src of (x, src') \<Rightarrow>
                        skipwhile_loop adv get
                          (s\<lparr>skipwhile_source := src', skipping := skipwhile_predicate s x\<rparr>))
                else Some (s\<lparr>skipwhile_source := src\<rparr>))
      else Some s)"

declare skipwhile_loop.simps [code]

definition skipwhile_advance ::
  "'s advance \<Rightarrow> ('s, 'a) get \<Rightarrow> ('s, 'a) SkipWhileStreamExtractor advance" where
  "skipwhile_advance adv get s =
     (if skipping s
      then (case skipwhile_loop adv get s of
              None \<Rightarrow> None
            | Some s' \<Rightarrow> Some (\<not> skipping s', s'))
      else (case adv (skipwhile_source s) of
              None \<Rightarrow> None
            | Some (b, src) \<Rightarrow> Some (b, s\<lparr>skipwhile_source := src\<rparr>)))"

section \<open>TakeStreamExtractor\<close>

record 's TakeStreamExtractor =
  take_source :: 's
  limit :: size_t

definition take_get :: "('s, 'a) get \<Rightarrow> ('s TakeStreamExtractor, 'a) get" where
  "take_get get s = (case get (take_source s) of (x, src) \<Rightarrow> (x, s\<lparr>take_source := src\<rparr>))"

definition take_advance :: "'s advance \<Rightarrow> 's TakeStreamExtractor advance" where
  "take_advance adv s =
     (if limit s \<noteq> 0
      then (case adv (take_source s) of
              None \<Rightarrow> None
            | Some (b, src) \<Rightarrow> Some (b, s\<lparr>take_source := src, limit := limit s - 1\<rparr>))
      else Some (False, s))"

section \<open>TakeWhileStreamExtractor\<close>

record ('s, 'a) TakeWhileStreamExtractor =
  takewhile_source :: 's
  takewhile_predicate :: "'a \<Rightarrow> bool"
  taking :: bool

definition takewhile_get :: "('s, 'a) get \<Rightarrow> (('s, 'a) TakeWhileStreamExtractor, 'a) get" where
  "takewhile_get get s =
     (case get (takewhile_source s) of (x, src) \<Rightarrow> (x, s\<lparr>takewhile_source := src\<rparr>))"

text \<open>
  \<^verbatim>\<open>taking &= taking && source.advance() && predicate(*source.get()); return taking;\<close>
  The right-hand side short-circuits from the left; \<^verbatim>\<open>&=\<close> then stores the conjunction
  of the old flag and that value.
\<close>

definition takewhile_advance ::
  "'s advance \<Rightarrow> ('s, 'a) get \<Rightarrow> ('s, 'a) TakeWhileStreamExtractor advance" where
  "takewhile_advance adv get s =
     (if taking s
      then (case adv (takewhile_source s) of
              None \<Rightarrow> None
            | Some (b, src) \<Rightarrow>
                if b
                then (case get src of (x, src') \<Rightarrow>
                        (let t = taking s \<and> takewhile_predicate s x
                         in Some (t, s\<lparr>takewhile_source := src', taking := t\<rparr>)))
                else Some (False, s\<lparr>takewhile_source := src, taking := False\<rparr>))
      else Some (False, s))"

section \<open>FilterStreamExtractor\<close>

record ('s, 'a) FilterStreamExtractor =
  filter_source :: 's
  filter_predicate :: "'a \<Rightarrow> bool"

definition filter_get :: "('s, 'a) get \<Rightarrow> (('s, 'a) FilterStreamExtractor, 'a) get" where
  "filter_get get s =
     (case get (filter_source s) of (x, src) \<Rightarrow> (x, s\<lparr>filter_source := src\<rparr>))"

text \<open>The loop \<^verbatim>\<open>while (!predicate(*element))\<close> with both of its exits.\<close>

partial_function (option) filter_loop ::
  "'s advance \<Rightarrow> ('s, 'a) get \<Rightarrow> ('s, 'a) FilterStreamExtractor \<Rightarrow> 'a
     \<Rightarrow> (bool \<times> ('s, 'a) FilterStreamExtractor) option" where
  "filter_loop adv get s element =
     (if \<not> filter_predicate s element
      then (case adv (filter_source s) of
              None \<Rightarrow> None
            | Some (b, src) \<Rightarrow>
                if b
                then (case get src of (x, src') \<Rightarrow>
                        filter_loop adv get (s\<lparr>filter_source := src'\<rparr>) x)
                else Some (False, s\<lparr>filter_source := src\<rparr>))
      else Some (True, s))"

declare filter_loop.simps [code]

definition filter_advance ::
  "'s advance \<Rightarrow> ('s, 'a) get \<Rightarrow> ('s, 'a) FilterStreamExtractor advance" where
  "filter_advance adv get s =
     (case adv (filter_source s) of
        None \<Rightarrow> None
      | Some (b, src) \<Rightarrow>
          if \<not> b then Some (False, s\<lparr>filter_source := src\<rparr>)
          else (case get src of (element, src') \<Rightarrow>
                  filter_loop adv get (s\<lparr>filter_source := src'\<rparr>) element))"

section \<open>MapStreamExtractor\<close>

text \<open>
  The member \<^verbatim>\<open>value\<close> is the one slot that holds the mapped element; \<^verbatim>\<open>get_impl\<close>
  overwrites it and returns its address.
\<close>

record ('s, 'a, 'b) MapStreamExtractor =
  map_source :: 's
  mapFunc :: "'a \<Rightarrow> 'b"
  map_value :: 'b

definition map_get :: "('s, 'a) get \<Rightarrow> (('s, 'a, 'b) MapStreamExtractor, 'b) get" where
  "map_get get s =
     (case get (map_source s) of (x, src) \<Rightarrow>
        (let v = mapFunc s x in (v, s\<lparr>map_source := src, map_value := v\<rparr>)))"

definition map_advance :: "'s advance \<Rightarrow> ('s, 'a, 'b) MapStreamExtractor advance" where
  "map_advance adv s =
     (case adv (map_source s) of
        None \<Rightarrow> None
      | Some (b, src) \<Rightarrow> Some (b, s\<lparr>map_source := src\<rparr>))"

section \<open>InspectStreamExtractor\<close>

text \<open>
  An inspector is called for its effect only. The stage owns the callable; what a
  call does is modelled on the state \<open>'i\<close> the callable carries: \<open>inspector_call\<close> is its
  call operator and \<open>inspector\<close> the state the calls so far have left.
\<close>

record ('s, 'a, 'i) InspectStreamExtractor =
  inspect_source :: 's
  inspector_call :: "'a \<Rightarrow> 'i \<Rightarrow> 'i"
  inspector :: 'i

definition inspect_get :: "('s, 'a) get \<Rightarrow> (('s, 'a, 'i) InspectStreamExtractor, 'a) get" where
  "inspect_get get s =
     (case get (inspect_source s) of (x, src) \<Rightarrow>
        (x, s\<lparr>inspect_source := src, inspector := inspector_call s x (inspector s)\<rparr>))"

definition inspect_advance :: "'s advance \<Rightarrow> ('s, 'a, 'i) InspectStreamExtractor advance" where
  "inspect_advance adv s =
     (case adv (inspect_source s) of
        None \<Rightarrow> None
      | Some (b, src) \<Rightarrow> Some (b, s\<lparr>inspect_source := src\<rparr>))"

section \<open>BaseStreamInterface\<close>

text \<open>
  A stream handle holds its extractor and nothing else, so a handle is the state of
  its extractor. The chaining methods copy the extractor into a new stage.
\<close>

definition from_container :: "'a list \<Rightarrow> 'a SequenceStreamExtractor" where
  "from_container xs =
     \<lparr>seq_container = xs, seq_current = 0, seq_next = 0, seq_begin = 0, seq_end = length xs\<rparr>"

definition stream_map :: "'s \<Rightarrow> ('a \<Rightarrow> 'b) \<Rightarrow> 'b \<Rightarrow> ('s, 'a, 'b) MapStreamExtractor" where
  \<comment> \<open>\<open>v0\<close> is the value-initialised slot \<^verbatim>\<open>value {}\<close>\<close>
  "stream_map e mapper v0 = \<lparr>map_source = e, mapFunc = mapper, map_value = v0\<rparr>"

definition stream_filter :: "'s \<Rightarrow> ('a \<Rightarrow> bool) \<Rightarrow> ('s, 'a) FilterStreamExtractor" where
  "stream_filter e p = \<lparr>filter_source = e, filter_predicate = p\<rparr>"

definition stream_skip :: "'s \<Rightarrow> size_t \<Rightarrow> 's SkipFirstStreamExtractor" where
  "stream_skip e n = \<lparr>skip_source = e, skipCount = n\<rparr>"

definition stream_skipWhile :: "'s \<Rightarrow> ('a \<Rightarrow> bool) \<Rightarrow> ('s, 'a) SkipWhileStreamExtractor" where
  "stream_skipWhile e p = \<lparr>skipwhile_source = e, skipwhile_predicate = p, skipping = True\<rparr>"

definition stream_take :: "'s \<Rightarrow> size_t \<Rightarrow> 's TakeStreamExtractor" where
  "stream_take e n = \<lparr>take_source = e, limit = n\<rparr>"

definition stream_takeWhile :: "'s \<Rightarrow> ('a \<Rightarrow> bool) \<Rightarrow> ('s, 'a) TakeWhileStreamExtractor" where
  "stream_takeWhile e p = \<lparr>takewhile_source = e, takewhile_predicate = p, taking = True\<rparr>"

definition stream_inspect ::
  "'s \<Rightarrow> ('a \<Rightarrow> 'i \<Rightarrow> 'i) \<Rightarrow> 'i \<Rightarrow> ('s, 'a, 'i) InspectStreamExtractor" where
  "stream_inspect e call i0 = \<lparr>inspect_source = e, inspector_call = call, inspector = i0\<rparr>"

definition stream_next :: "'s advance \<Rightarrow> ('s, 'a) get \<Rightarrow> 's \<Rightarrow> ('a option \<times> 's) option" where
  "stream_next adv get e =
     (case adv e of
        None \<Rightarrow> None
      | Some (b, e1) \<Rightarrow>
          if b then (case get e1 of (x, e2) \<Rightarrow> Some (Some x, e2))
          else Some (None, e1))"

function stream_nth ::
  "'s advance \<Rightarrow> ('s, 'a) get \<Rightarrow> size_t \<Rightarrow> 's \<Rightarrow> ('a option \<times> 's) option" where
  "stream_nth adv get n e =
     (if n \<noteq> 0
      then (case adv e of
              None \<Rightarrow> None
            | Some (b, e1) \<Rightarrow>
                if b then stream_nth adv get (n - 1) e1
                else stream_next adv get e1)
      else stream_next adv get e)"
  by pat_completeness auto
termination
  by (relation "measure (\<lambda>(adv, get, n, e). unat n)") (auto simp: unat_minus_one unat_gt_0)

declare stream_nth.simps [simp del]

partial_function (option) count_loop ::
  "'s advance \<Rightarrow> size_t \<Rightarrow> 's \<Rightarrow> (size_t \<times> 's) option" where
  "count_loop adv counter e =
     (case adv e of
        None \<Rightarrow> None
      | Some (b, e1) \<Rightarrow>
          if b then count_loop adv (counter + 1) e1
          else Some (counter, e1))"

declare count_loop.simps [code]

definition stream_count :: "'s advance \<Rightarrow> 's \<Rightarrow> (size_t \<times> 's) option" where
  "stream_count adv e = count_loop adv 0 e"

partial_function (option) all_loop ::
  "'s advance \<Rightarrow> ('s, 'a) get \<Rightarrow> ('a \<Rightarrow> bool) \<Rightarrow> 's \<Rightarrow> (bool \<times> 's) option" where
  "all_loop adv get p e =
     (case adv e of
        None \<Rightarrow> None
      | Some (b, e1) \<Rightarrow>
          if b
          then (case get e1 of (x, e2) \<Rightarrow>
                  if \<not> p x then Some (False, e2) else all_loop adv get p e2)
          else Some (True, e1))"

declare all_loop.simps [code]

definition stream_all ::
  "'s advance \<Rightarrow> ('s, 'a) get \<Rightarrow> ('a \<Rightarrow> bool) \<Rightarrow> 's \<Rightarrow> (bool \<times> 's) option" where
  "stream_all adv get p e = all_loop adv get p e"

partial_function (option) collect_loop ::
  "'s advance \<Rightarrow> ('s, 'a) get \<Rightarrow> 'a list \<Rightarrow> 's \<Rightarrow> ('a list \<times> 's) option" where
  "collect_loop adv get container e =
     (case adv e of
        None \<Rightarrow> None
      | Some (b, e1) \<Rightarrow>
          if b
          then (case get e1 of (x, e2) \<Rightarrow> collect_loop adv get (container @ [x]) e2)
          else Some (container, e1))"

declare collect_loop.simps [code]

definition stream_collect :: "'s advance \<Rightarrow> ('s, 'a) get \<Rightarrow> 's \<Rightarrow> ('a list \<times> 's) option" where
  "stream_collect adv get e = collect_loop adv get [] e"

section \<open>Observing an extractor\<close>

text \<open>
  The state of a sequence extractor over the container \<open>xs\<close> whose iterator
  \<^verbatim>\<open>current\<close> stands at position \<open>c\<close> and \<^verbatim>\<open>next\<close> at position \<open>i\<close>.
\<close>

definition seq_at :: "'a list \<Rightarrow> nat \<Rightarrow> nat \<Rightarrow> 'a SequenceStreamExtractor" where
  "seq_at xs c i =
     \<lparr>seq_container = xs, seq_current = c, seq_next = i, seq_begin = 0, seq_end = length xs\<rparr>"

text \<open>\<open>k\<close> calls of \<^verbatim>\<open>advance()\<close> in a row, and the flags they return.\<close>

fun repeat_advance :: "'s advance \<Rightarrow> nat \<Rightarrow> 's \<Rightarrow> (bool list \<times> 's) option" where
  "repeat_advance adv 0 s = Some ([], s)"
| "repeat_advance adv (Suc k) s =
     (case adv s of
        None \<Rightarrow> None
      | Some (b, s1) \<Rightarrow>
          (case repeat_advance adv k s1 of
             None \<Rightarrow> None
           | Some (bs, s2) \<Rightarrow> Some (b # bs, s2)))"

text \<open>\<open>k\<close> calls of \<^verbatim>\<open>next()\<close> in a row, and the optionals they return.\<close>

fun repeat_next ::
  "'s advance \<Rightarrow> ('s, 'a) get \<Rightarrow> nat \<Rightarrow> 's \<Rightarrow> ('a option list \<times> 's) option" where
  "repeat_next adv get 0 e = Some ([], e)"
| "repeat_next adv get (Suc k) e =
     (case stream_next adv get e of
        None \<Rightarrow> None
      | Some (r, e1) \<Rightarrow>
          (case repeat_next adv get k e1 of
             None \<Rightarrow> None
           | Some (rs, e2) \<Rightarrow> Some (r # rs, e2)))"

text \<open>
  An extractor state is spent when \<^verbatim>\<open>advance()\<close> returns false on it and leaves a
  state that is spent again. An extractor is sticky when every false return of its
  \<^verbatim>\<open>advance()\<close> leaves a spent state.
\<close>

coinductive spent :: "'s advance \<Rightarrow> 's \<Rightarrow> bool" for adv :: "'s advance" where
  spentI: "adv s = Some (False, s') \<Longrightarrow> spent adv s' \<Longrightarrow> spent adv s"

definition sticky :: "'s advance \<Rightarrow> bool" where
  "sticky adv = (\<forall>s s'. adv s = Some (False, s') \<longrightarrow> spent adv s')"

section \<open>The sequence extractor\<close>

lemma from_container_seq_at: "from_container xs = seq_at xs 0 0"
  by (simp add: from_container_def seq_at_def)

lemma seq_at_sel [simp]:
  "seq_next (seq_at xs c i) = i"
  "seq_current (seq_at xs c i) = c"
  "seq_container (seq_at xs c i) = xs"
  "seq_end (seq_at xs c i) = length xs"
  by (simp_all add: seq_at_def)

lemma seq_advance_more:
  "i < length xs \<Longrightarrow> seq_advance (seq_at xs c i) = Some (True, seq_at xs i (Suc i))"
  by (simp add: seq_advance_def seq_at_def)

lemma seq_advance_end:
  "seq_advance (seq_at xs c (length xs)) = Some (False, seq_at xs c (length xs))"
  by (simp add: seq_advance_def seq_at_def)

lemma seq_get_at: "seq_get (seq_at xs c i) = (xs ! c, seq_at xs c i)"
  by (simp add: seq_get_def seq_at_def)

text \<open>
  After a successful advance of a sequence extractor that \<open>from_container\<close> built,
  \<^verbatim>\<open>current\<close> points into the container: \<open>seq_get\<close> reads a defined element.
\<close>

lemma seq_get_in_range:
  "i \<le> length xs \<Longrightarrow> seq_advance (seq_at xs c i) = Some (True, s) \<Longrightarrow>
     seq_current s < length (seq_container s) \<and> fst (seq_get s) = xs ! i"
  by (cases "i = length xs") (auto simp: seq_advance_end seq_advance_more seq_get_at)

section \<open>takeWhile\<close>

lemma collect_loop_takewhile_seq:
  "i \<le> length xs \<Longrightarrow>
   \<exists>e. collect_loop (takewhile_advance seq_advance seq_get) (takewhile_get seq_get) acc
          \<lparr>takewhile_source = seq_at xs c i, takewhile_predicate = p, taking = True\<rparr>
        = Some (acc @ takeWhile p (drop i xs), e)
      \<and> seq_next (takewhile_source e)
          = min (length xs) (Suc (i + length (takeWhile p (drop i xs))))
      \<and> \<not> taking e"
proof (induction "length xs - i" arbitrary: i c acc)
  case 0
  then have i: "i = length xs" by simp
  show ?case
    unfolding i
    by (subst collect_loop.simps) (simp add: takewhile_advance_def seq_advance_end)
next
  case (Suc n)
  then have lt: "i < length xs" by simp
  have dr: "drop i xs = xs ! i # drop (Suc i) xs"
    using lt by (simp add: Cons_nth_drop_Suc)
  show ?case
  proof (cases "p (xs ! i)")
    case True
    have n: "n = length xs - Suc i" using Suc.hyps(2) by simp
    have le: "Suc i \<le> length xs" using lt by simp
    from Suc.hyps(1)[OF n le, of "acc @ [xs ! i]" i]
    obtain e where e: "collect_loop (takewhile_advance seq_advance seq_get)
          (takewhile_get seq_get) (acc @ [xs ! i])
          \<lparr>takewhile_source = seq_at xs i (Suc i), takewhile_predicate = p, taking = True\<rparr>
        = Some ((acc @ [xs ! i]) @ takeWhile p (drop (Suc i) xs), e)"
      and e2: "seq_next (takewhile_source e)
        = min (length xs) (Suc (Suc i + length (takeWhile p (drop (Suc i) xs))))"
      and e3: "\<not> taking e" by blast
    show ?thesis
      apply (subst collect_loop.simps)
      apply (rule exI[of _ e])
      using True e e2 e3
      by (simp add: takewhile_advance_def takewhile_get_def seq_advance_more[OF lt] seq_get_at dr)
  next
    case False
    show ?thesis
      apply (subst collect_loop.simps)
      using False lt
      by (simp add: takewhile_advance_def takewhile_get_def seq_advance_more[OF lt] seq_get_at dr)
  qed
qed

text \<open>
  C1. For every sequence \<open>S\<close> and predicate \<open>p\<close>, collecting \<open>from(S).takeWhile(p)\<close>
  returns and yields exactly the longest prefix of \<open>S\<close> whose elements all satisfy \<open>p\<close>.
  The upstream cursor ends one position past that prefix when \<open>S\<close> goes on (the first
  failing element was consumed, and it is not in the result), and the stage has
  stopped taking, so nothing after it is emitted.
\<close>

theorem takeWhile_collect:
  "\<exists>e. stream_collect (takewhile_advance seq_advance seq_get) (takewhile_get seq_get)
          (stream_takeWhile (from_container S) p)
        = Some (takeWhile p S, e)
      \<and> seq_next (takewhile_source e) = min (length S) (Suc (length (takeWhile p S)))
      \<and> \<not> taking e"
  using collect_loop_takewhile_seq[of 0 S "[]" 0 p]
  by (simp add: stream_collect_def stream_takeWhile_def from_container_seq_at)

text \<open>The scenario of the specification: \<open>[5,6,1,2,9]\<close> with \<open>x > 3\<close> gives \<open>[5,6]\<close>.\<close>

theorem takeWhile_collect_witness:
  "\<exists>e. stream_collect (takewhile_advance seq_advance seq_get) (takewhile_get seq_get)
          (stream_takeWhile (from_container [5, 6, 1, 2, 9 :: int]) (\<lambda>x. 3 < x))
        = Some ([5, 6], e)
      \<and> seq_next (takewhile_source e) = 3
      \<and> \<not> taking e"
  using takeWhile_collect[of "[5, 6, 1, 2, 9 :: int]" "\<lambda>x. 3 < x"]
  by (simp add: numeral_3_eq_3)

section \<open>take\<close>

lemma count_loop_take_seq:
  "i \<le> length xs \<Longrightarrow>
   \<exists>e. count_loop (take_advance seq_advance) k
          \<lparr>take_source = seq_at xs c i, limit = n\<rparr>
        = Some (k + of_nat (min (unat n) (length xs - i)), e)
      \<and> seq_next (take_source e) = i + min (unat n) (length xs - i)"
proof (induction "length xs - i" arbitrary: i c n k)
  case 0
  then have i: "i = length xs" by simp
  show ?case
    unfolding i
    by (subst count_loop.simps) (simp add: take_advance_def seq_advance_end)
next
  case (Suc m)
  then have lt: "i < length xs" by simp
  show ?case
  proof (cases "n = 0")
    case True
    then show ?thesis
      by (subst count_loop.simps) (simp add: take_advance_def)
  next
    case False
    have m: "m = length xs - Suc i" using Suc.hyps(2) by simp
    have le: "Suc i \<le> length xs" using lt by simp
    have un: "unat (n - 1) = unat n - 1" using False by (simp add: unat_minus_one)
    have pos: "0 < unat n" using False by (simp add: unat_gt_0)
    have mn: "min (unat n) (length xs - i) = Suc (min (unat n - 1) (length xs - Suc i))"
      using pos lt by simp
    from Suc.hyps(1)[OF m le, of "k + 1" i "n - 1"]
    obtain e where e: "count_loop (take_advance seq_advance) (k + 1)
          \<lparr>take_source = seq_at xs i (Suc i), limit = n - 1\<rparr>
        = Some (k + 1 + of_nat (min (unat (n - 1)) (length xs - Suc i)), e)"
      and e2: "seq_next (take_source e) = Suc i + min (unat (n - 1)) (length xs - Suc i)"
      by blast
    show ?thesis
      apply (subst count_loop.simps)
      apply (rule exI[of _ e])
      using False e e2
      by (simp add: take_advance_def seq_advance_more[OF lt] un mn)
  qed
qed

text \<open>
  C2. For every sequence \<open>S\<close> and every \<open>n\<close>, \<open>from(S).take(n).count()\<close> returns, its
  value is \<open>min(n, |S|)\<close> and so at most \<open>n\<close>; the upstream cursor has moved by as many
  elements.
\<close>

theorem take_count:
  "\<exists>w e. stream_count (take_advance seq_advance) (stream_take (from_container S) n)
          = Some (w, e)
        \<and> unat w = min (unat n) (length S)
        \<and> unat w \<le> unat n
        \<and> seq_next (take_source e) = min (unat n) (length S)"
proof -
  from count_loop_take_seq[of 0 S 0 0 n]
  obtain e where e: "count_loop (take_advance seq_advance) 0
          \<lparr>take_source = seq_at S 0 0, limit = n\<rparr>
        = Some (of_nat (min (unat n) (length S)), e)"
    and e2: "seq_next (take_source e) = min (unat n) (length S)"
    by auto
  have "min (unat n) (length S) \<le> unat n" by simp
  then have "unat (of_nat (min (unat n) (length S)) :: 64 word) = min (unat n) (length S)"
    by (rule le_unat_uoi)
  with e e2 show ?thesis
    by (simp add: stream_count_def stream_take_def from_container_seq_at)
qed

theorem take_count_witness:
  "\<exists>w e. stream_count (take_advance seq_advance)
            (stream_take (from_container [5, 6, 1, 2, 9 :: int]) 3)
          = Some (w, e)
        \<and> unat w = 3
        \<and> seq_next (take_source e) = 3"
proof -
  have u: "unat (3 :: 64 word) = 3" by simp
  have m: "min (3 :: nat) (length [5, 6, 1, 2, 9 :: int]) = 3" by simp
  from take_count[of "[5, 6, 1, 2, 9 :: int]" 3] show ?thesis
    unfolding u m by blast
qed

section \<open>take: the limit\<close>

lemma take_advance_zero: "limit s = 0 \<Longrightarrow> take_advance adv s = Some (False, s)"
  by (simp add: take_advance_def)

lemma take_repeat_zero:
  "limit s = 0 \<Longrightarrow> repeat_advance (take_advance adv) k s = Some (replicate k False, s)"
  by (induction k) (simp_all add: take_advance_zero)

lemma take_limit_decreases:
  "take_advance adv s = Some (b, s') \<Longrightarrow>
     unat (limit s') = unat (limit s) - 1"
  by (cases "limit s = 0")
     (auto simp: take_advance_def unat_minus_one split: option.splits)

text \<open>
  C4. Once the remaining count of a Take stage is zero, its advance returns false and
  leaves the whole stage as it was, whatever the upstream is: the upstream state is
  the same and the count is still zero. So does every later call, any number \<open>k\<close> of
  them, also over an upstream whose advance would never return (\<open>\<lambda>_. None\<close>): the
  upstream is not invoked. When the count is not zero, an advance lowers it by exactly
  one, so it reaches zero without wrapping around.
\<close>

theorem take_limit_reached:
  "(limit s = 0 \<longrightarrow>
      take_advance adv s = Some (False, s)
    \<and> take_advance (\<lambda>_. None) s = Some (False, s)
    \<and> repeat_advance (take_advance adv) k s = Some (replicate k False, s)
    \<and> repeat_advance (take_advance (\<lambda>_. None)) k s = Some (replicate k False, s))
   \<and> (take_advance adv s = Some (b, s') \<longrightarrow> unat (limit s') = unat (limit s) - 1)"
  using take_limit_decreases[of adv s b s']
  by (simp add: take_advance_zero take_repeat_zero)

theorem take_limit_reached_witness:
  "take_advance seq_advance (stream_take (from_container [7, 8 :: int]) 1)
     = Some (True, \<lparr>take_source = seq_at [7, 8] 0 1, limit = 0\<rparr>)
   \<and> unat (limit \<lparr>take_source = seq_at [7, 8 :: int] 0 1, limit = 0\<rparr>)
     = unat (limit (stream_take (from_container [7, 8 :: int]) 1)) - 1
   \<and> take_advance seq_advance \<lparr>take_source = seq_at [7, 8 :: int] 0 1, limit = 0\<rparr>
     = Some (False, \<lparr>take_source = seq_at [7, 8] 0 1, limit = 0\<rparr>)
   \<and> repeat_advance (take_advance (\<lambda>_. None)) 3
        \<lparr>take_source = seq_at [7, 8 :: int] 0 1, limit = 0\<rparr>
     = Some ([False, False, False], \<lparr>take_source = seq_at [7, 8] 0 1, limit = 0\<rparr>)"
proof -
  let ?start = "stream_take (from_container [7, 8 :: int]) 1"
  let ?s = "\<lparr>take_source = seq_at [7, 8 :: int] 0 1, limit = 0\<rparr>"
  have z: "limit ?s = 0" by simp
  have first: "take_advance seq_advance ?start = Some (True, ?s)"
    by (simp add: take_advance_def stream_take_def from_container_seq_at seq_advance_more)
  have r: "replicate 3 False = [False, False, False]" by (simp add: numeral_3_eq_3)
  from take_limit_reached[of ?start seq_advance 3 True ?s, THEN conjunct2, THEN mp, OF first]
  have dec: "unat (limit ?s) = unat (limit ?start) - 1" .
  from take_limit_reached[of ?s seq_advance 3 False ?s] z
  have "take_advance seq_advance ?s = Some (False, ?s)"
    and "repeat_advance (take_advance (\<lambda>_. None)) 3 ?s = Some (replicate 3 False, ?s)"
    by blast+
  with first dec r show ?thesis by simp
qed

section \<open>skipWhile\<close>

lemma skipwhile_loop_seq:
  "i \<le> length xs \<Longrightarrow>
   skipwhile_loop seq_advance seq_get
     \<lparr>skipwhile_source = seq_at xs c i, skipwhile_predicate = p, skipping = True\<rparr>
   = (if dropWhile p (drop i xs) = []
      then Some \<lparr>skipwhile_source = seq_at xs (if i < length xs then length xs - 1 else c)
                    (length xs),
                 skipwhile_predicate = p, skipping = True\<rparr>
      else Some \<lparr>skipwhile_source = seq_at xs (i + length (takeWhile p (drop i xs)))
                    (Suc (i + length (takeWhile p (drop i xs)))),
                 skipwhile_predicate = p, skipping = False\<rparr>)"
proof (induction "length xs - i" arbitrary: i c)
  case 0
  then have i: "i = length xs" by simp
  show ?case
    unfolding i
    by (subst skipwhile_loop.simps) (simp add: seq_advance_end)
next
  case (Suc n)
  then have lt: "i < length xs" by simp
  have dr: "drop i xs = xs ! i # drop (Suc i) xs"
    using lt by (simp add: Cons_nth_drop_Suc)
  have n: "n = length xs - Suc i" using Suc.hyps(2) by simp
  have le: "Suc i \<le> length xs" using lt by simp
  note IH = Suc.hyps(1)[OF n le, of i]
  show ?case
  proof (cases "p (xs ! i)")
    case True
    have last: "\<not> Suc i < length xs \<Longrightarrow> length xs - Suc 0 = i"
      using lt by simp
    show ?thesis
      apply (subst skipwhile_loop.simps)
      using True lt IH
      by (auto simp: seq_advance_more[OF lt] seq_get_at dr last)
  next
    case False
    show ?thesis
      apply (subst skipwhile_loop.simps)
      using False lt
      apply (simp add: seq_advance_more[OF lt] seq_get_at dr)
      apply (subst skipwhile_loop.simps)
      apply simp
      done
  qed
qed

lemma skipwhile_advance_passing:
  "i < length xs \<Longrightarrow>
   skipwhile_advance seq_advance seq_get
     \<lparr>skipwhile_source = seq_at xs c i, skipwhile_predicate = p, skipping = False\<rparr>
   = Some (True, \<lparr>skipwhile_source = seq_at xs i (Suc i), skipwhile_predicate = p,
                   skipping = False\<rparr>)"
  by (simp add: skipwhile_advance_def seq_advance_more)

lemma skipwhile_advance_passing_end:
  "skipwhile_advance seq_advance seq_get
     \<lparr>skipwhile_source = seq_at xs c (length xs), skipwhile_predicate = p, skipping = b\<rparr>
   = Some (False, \<lparr>skipwhile_source = seq_at xs c (length xs), skipwhile_predicate = p,
                    skipping = b\<rparr>)"
  by (cases b) (simp_all add: skipwhile_advance_def seq_advance_end skipwhile_loop.simps)

lemma skipwhile_repeat_end:
  "repeat_advance (skipwhile_advance seq_advance seq_get) k
     \<lparr>skipwhile_source = seq_at xs c (length xs), skipwhile_predicate = p, skipping = b\<rparr>
   = Some (replicate k False,
       \<lparr>skipwhile_source = seq_at xs c (length xs), skipwhile_predicate = p, skipping = b\<rparr>)"
  by (induction k) (simp_all add: skipwhile_advance_passing_end)

lemma skipwhile_collect_passing:
  "i \<le> length xs \<Longrightarrow>
   \<exists>e. collect_loop (skipwhile_advance seq_advance seq_get) (skipwhile_get seq_get) acc
          \<lparr>skipwhile_source = seq_at xs c i, skipwhile_predicate = p, skipping = False\<rparr>
        = Some (acc @ drop i xs, e)"
proof (induction "length xs - i" arbitrary: i c acc)
  case 0
  then have i: "i = length xs" by simp
  show ?case
    unfolding i
    by (subst collect_loop.simps) (simp add: skipwhile_advance_passing_end)
next
  case (Suc n)
  then have lt: "i < length xs" by simp
  have dr: "drop i xs = xs ! i # drop (Suc i) xs"
    using lt by (simp add: Cons_nth_drop_Suc)
  have n: "n = length xs - Suc i" using Suc.hyps(2) by simp
  have le: "Suc i \<le> length xs" using lt by simp
  from Suc.hyps(1)[OF n le, of "acc @ [xs ! i]" i]
  obtain e where e: "collect_loop (skipwhile_advance seq_advance seq_get)
        (skipwhile_get seq_get) (acc @ [xs ! i])
        \<lparr>skipwhile_source = seq_at xs i (Suc i), skipwhile_predicate = p, skipping = False\<rparr>
      = Some ((acc @ [xs ! i]) @ drop (Suc i) xs, e)" by blast
  show ?case
    apply (subst collect_loop.simps)
    apply (rule exI[of _ e])
    using e
    by (simp add: skipwhile_advance_passing[OF lt] skipwhile_get_def seq_get_at dr)
qed

lemma skipwhile_first_advance:
  "skipwhile_advance seq_advance seq_get (stream_skipWhile (from_container S) p)
   = (if dropWhile p S = []
      then Some (False, \<lparr>skipwhile_source = seq_at S (length S - 1) (length S),
                          skipwhile_predicate = p, skipping = True\<rparr>)
      else Some (True, \<lparr>skipwhile_source = seq_at S (length (takeWhile p S))
                           (Suc (length (takeWhile p S))),
                         skipwhile_predicate = p, skipping = False\<rparr>))"
  using skipwhile_loop_seq[of 0 S 0 p]
  by (auto simp: skipwhile_advance_def stream_skipWhile_def from_container_seq_at)

lemma nth_length_takeWhile_hd:
  "dropWhile p S \<noteq> [] \<Longrightarrow> S ! length (takeWhile p S) = hd (dropWhile p S)"
  by (simp add: hd_dropWhile dropWhile_eq_drop hd_drop_conv_nth)

lemma skipwhile_collect_seq:
  "\<exists>e. stream_collect (skipwhile_advance seq_advance seq_get) (skipwhile_get seq_get)
          (stream_skipWhile (from_container S) p)
        = Some (dropWhile p S, e)"
proof (cases "dropWhile p S = []")
  case True
  show ?thesis
    unfolding stream_collect_def True
    apply (subst collect_loop.simps)
    using True
    by (auto simp: skipwhile_first_advance)
next
  case False
  let ?j = "length (takeWhile p S)"
  have lt: "?j < length S"
    using False by (metis dropWhile_eq_drop drop_eq_Nil not_le_imp_less)
  have le: "Suc ?j \<le> length S" using lt by simp
  have dr: "dropWhile p S = S ! ?j # drop (Suc ?j) S"
    using lt by (simp add: dropWhile_eq_drop Cons_nth_drop_Suc)
  from skipwhile_collect_passing[OF le, of "[S ! ?j]" ?j p]
  obtain e where e: "collect_loop (skipwhile_advance seq_advance seq_get)
        (skipwhile_get seq_get) [S ! ?j]
        \<lparr>skipwhile_source = seq_at S ?j (Suc ?j), skipwhile_predicate = p, skipping = False\<rparr>
      = Some ([S ! ?j] @ drop (Suc ?j) S, e)" by blast
  show ?thesis
    unfolding stream_collect_def
    apply (subst collect_loop.simps)
    apply (rule exI[of _ e])
    using False e
    by (simp add: skipwhile_first_advance skipwhile_get_def seq_get_at dr)
qed

text \<open>
  C3. For every sequence \<open>S\<close> and predicate \<open>p\<close>: collecting \<open>from(S).skipWhile(p)\<close>
  returns \<open>S\<close> without its longest prefix of elements satisfying \<open>p\<close>. When some element
  fails \<open>p\<close>, the first advance returns true, leaves skipping mode, and the current
  element is the first element failing \<open>p\<close>, with the upstream cursor just past it. When
  none does, the first advance returns false, the stage is still skipping, and any
  number \<open>k\<close> of further advances return false. Out of skipping mode an advance at
  position \<open>i\<close> makes the element at \<open>i\<close> current, whatever \<open>p\<close> says of it.
\<close>

theorem skipWhile_behaviour:
  "(\<exists>e. stream_collect (skipwhile_advance seq_advance seq_get) (skipwhile_get seq_get)
           (stream_skipWhile (from_container S) p)
         = Some (dropWhile p S, e))
   \<and> (if dropWhile p S = []
      then \<exists>e. skipwhile_advance seq_advance seq_get (stream_skipWhile (from_container S) p)
                 = Some (False, e)
               \<and> skipping e
               \<and> (\<forall>k. repeat_advance (skipwhile_advance seq_advance seq_get) k e
                        = Some (replicate k False, e))
      else \<exists>e. skipwhile_advance seq_advance seq_get (stream_skipWhile (from_container S) p)
                 = Some (True, e)
               \<and> \<not> skipping e
               \<and> fst (skipwhile_get seq_get e) = hd (dropWhile p S)
               \<and> seq_next (skipwhile_source e) = Suc (length (takeWhile p S)))
   \<and> (i < length S \<longrightarrow>
        skipwhile_advance seq_advance seq_get
          \<lparr>skipwhile_source = seq_at S c i, skipwhile_predicate = p, skipping = False\<rparr>
        = Some (True, \<lparr>skipwhile_source = seq_at S i (Suc i), skipwhile_predicate = p,
                        skipping = False\<rparr>)
      \<and> fst (skipwhile_get seq_get
                \<lparr>skipwhile_source = seq_at S i (Suc i), skipwhile_predicate = p,
                   skipping = False\<rparr>) = S ! i)"
proof (intro conjI)
  show "\<exists>e. stream_collect (skipwhile_advance seq_advance seq_get) (skipwhile_get seq_get)
           (stream_skipWhile (from_container S) p)
         = Some (dropWhile p S, e)"
    by (rule skipwhile_collect_seq)
next
  show "if dropWhile p S = []
      then \<exists>e. skipwhile_advance seq_advance seq_get (stream_skipWhile (from_container S) p)
                 = Some (False, e)
               \<and> skipping e
               \<and> (\<forall>k. repeat_advance (skipwhile_advance seq_advance seq_get) k e
                        = Some (replicate k False, e))
      else \<exists>e. skipwhile_advance seq_advance seq_get (stream_skipWhile (from_container S) p)
                 = Some (True, e)
               \<and> \<not> skipping e
               \<and> fst (skipwhile_get seq_get e) = hd (dropWhile p S)
               \<and> seq_next (skipwhile_source e) = Suc (length (takeWhile p S))"
    by (simp add: skipwhile_first_advance skipwhile_repeat_end skipwhile_get_def seq_get_at
          nth_length_takeWhile_hd)
next
  show "i < length S \<longrightarrow>
        skipwhile_advance seq_advance seq_get
          \<lparr>skipwhile_source = seq_at S c i, skipwhile_predicate = p, skipping = False\<rparr>
        = Some (True, \<lparr>skipwhile_source = seq_at S i (Suc i), skipwhile_predicate = p,
                        skipping = False\<rparr>)
      \<and> fst (skipwhile_get seq_get
                \<lparr>skipwhile_source = seq_at S i (Suc i), skipwhile_predicate = p,
                   skipping = False\<rparr>) = S ! i"
    by (simp add: skipwhile_advance_passing skipwhile_get_def seq_get_at)
qed

text \<open>
  On \<open>[5,6,1,2,9]\<close> with \<open>x > 3\<close> the stage emits \<open>[1,2,9]\<close>: \<open>9\<close> satisfies the
  predicate and is kept. On \<open>[5,6]\<close> the upstream runs out while skipping.
\<close>

theorem skipWhile_behaviour_witness:
  "(\<exists>e. stream_collect (skipwhile_advance seq_advance seq_get) (skipwhile_get seq_get)
           (stream_skipWhile (from_container [5, 6, 1, 2, 9 :: int]) (\<lambda>x. 3 < x))
         = Some ([1, 2, 9], e))
   \<and> (\<exists>e. skipwhile_advance seq_advance seq_get
              (stream_skipWhile (from_container [5, 6, 1, 2, 9 :: int]) (\<lambda>x. 3 < x))
            = Some (True, e)
          \<and> \<not> skipping e
          \<and> fst (skipwhile_get seq_get e) = 1)
   \<and> skipwhile_advance seq_advance seq_get
        \<lparr>skipwhile_source = seq_at [5, 6, 1, 2, 9 :: int] 3 4,
           skipwhile_predicate = (\<lambda>x. 3 < x), skipping = False\<rparr>
      = Some (True, \<lparr>skipwhile_source = seq_at [5, 6, 1, 2, 9] 4 5,
                      skipwhile_predicate = (\<lambda>x. 3 < x), skipping = False\<rparr>)
   \<and> (\<exists>e. skipwhile_advance seq_advance seq_get
              (stream_skipWhile (from_container [5, 6 :: int]) (\<lambda>x. 3 < x))
            = Some (False, e)
          \<and> skipping e
          \<and> repeat_advance (skipwhile_advance seq_advance seq_get) 2 e
              = Some ([False, False], e))"
proof -
  have four: "(4 :: nat) < length [5, 6, 1, 2, 9 :: int]" by simp
  have r: "replicate 2 False = [False, False]" by (simp add: numeral_2_eq_2)
  have s: "Suc 4 = 5" by simp
  note a = skipWhile_behaviour[of "[5, 6, 1, 2, 9 :: int]" "\<lambda>x. 3 < x" 4 3]
  note b = skipWhile_behaviour[of "[5, 6 :: int]" "\<lambda>x. 3 < x" 0 0]
  have b2: "\<exists>e. skipwhile_advance seq_advance seq_get
              (stream_skipWhile (from_container [5, 6 :: int]) (\<lambda>x. 3 < x))
            = Some (False, e)
          \<and> skipping e
          \<and> repeat_advance (skipwhile_advance seq_advance seq_get) 2 e
              = Some ([False, False], e)"
  proof -
    from b obtain e where e1: "skipwhile_advance seq_advance seq_get
              (stream_skipWhile (from_container [5, 6 :: int]) (\<lambda>x. 3 < x))
            = Some (False, e)"
      and e2: "skipping e"
      and e3: "\<forall>k. repeat_advance (skipwhile_advance seq_advance seq_get) k e
              = Some (replicate k False, e)"
      by auto
    from e3 have "repeat_advance (skipwhile_advance seq_advance seq_get) 2 e
              = Some (replicate 2 False, e)" by (rule spec)
    with e1 e2 r show ?thesis by (intro exI[of _ e]) simp
  qed
  show ?thesis
    using a four b2 s by auto
qed

section \<open>map and inspect\<close>

lemma collect_loop_seq:
  "i \<le> length xs \<Longrightarrow>
   \<exists>c'. collect_loop seq_advance seq_get acc (seq_at xs c i)
        = Some (acc @ drop i xs, seq_at xs c' (length xs))"
proof (induction "length xs - i" arbitrary: i c acc)
  case 0
  then have i: "i = length xs" by simp
  show ?case
    unfolding i
    by (subst collect_loop.simps) (auto simp: seq_advance_end)
next
  case (Suc n)
  then have lt: "i < length xs" by simp
  have dr: "drop i xs = xs ! i # drop (Suc i) xs"
    using lt by (simp add: Cons_nth_drop_Suc)
  have n: "n = length xs - Suc i" using Suc.hyps(2) by simp
  have le: "Suc i \<le> length xs" using lt by simp
  from Suc.hyps(1)[OF n le, of "acc @ [xs ! i]" i]
  obtain c' where c': "collect_loop seq_advance seq_get (acc @ [xs ! i]) (seq_at xs i (Suc i))
      = Some ((acc @ [xs ! i]) @ drop (Suc i) xs, seq_at xs c' (length xs))" by blast
  show ?case
    apply (subst collect_loop.simps)
    apply (rule exI[of _ c'])
    using c'
    by (simp add: seq_advance_more[OF lt] seq_get_at dr)
qed

lemma count_loop_seq:
  "i \<le> length xs \<Longrightarrow>
   count_loop seq_advance k (seq_at xs c i)
     = Some (k + of_nat (length xs - i),
             seq_at xs (if i < length xs then length xs - 1 else c) (length xs))"
proof (induction "length xs - i" arbitrary: i c k)
  case 0
  then have i: "i = length xs" by simp
  show ?case
    unfolding i
    by (subst count_loop.simps) (simp add: seq_advance_end)
next
  case (Suc n)
  then have lt: "i < length xs" by simp
  have n: "n = length xs - Suc i" using Suc.hyps(2) by simp
  have le: "Suc i \<le> length xs" using lt by simp
  have sub: "length xs - i = Suc (length xs - Suc i)" using lt by simp
  have last: "\<not> Suc i < length xs \<Longrightarrow> length xs - Suc 0 = i"
    using lt by simp
  show ?case
    apply (subst count_loop.simps)
    using Suc.hyps(1)[OF n le, of "k + 1" i] lt
    by (auto simp: seq_advance_more[OF lt] sub last)
qed

lemma map_advance_step:
  "adv e = Some (b, e1) \<Longrightarrow>
   map_advance adv \<lparr>map_source = e, mapFunc = f, map_value = v\<rparr>
     = Some (b, \<lparr>map_source = e1, mapFunc = f, map_value = v\<rparr>)"
  by (simp add: map_advance_def)

lemma map_get_step:
  "get e = (x, e1) \<Longrightarrow>
   map_get get \<lparr>map_source = e, mapFunc = f, map_value = v\<rparr>
     = (f x, \<lparr>map_source = e1, mapFunc = f, map_value = f x\<rparr>)"
  by (simp add: map_get_def Let_def)

lemma inspect_advance_step:
  "adv e = Some (b, e1) \<Longrightarrow>
   inspect_advance adv \<lparr>inspect_source = e, inspector_call = c, inspector = i0\<rparr>
     = Some (b, \<lparr>inspect_source = e1, inspector_call = c, inspector = i0\<rparr>)"
  by (simp add: inspect_advance_def)

lemma collect_loop_through_map:
  "collect_loop adv get acc e = Some y \<Longrightarrow>
   \<exists>v'. collect_loop (map_advance adv) (map_get get) (map f acc)
          \<lparr>map_source = e, mapFunc = f, map_value = v\<rparr>
        = Some (map f (fst y), \<lparr>map_source = snd y, mapFunc = f, map_value = v'\<rparr>)"
proof (induction arbitrary: v rule: collect_loop.raw_induct[rotated 1, consumes 1, case_names 1])
  case (1 collect_loop' adv get acc e y)
  from "1.hyps" obtain b e1 where a: "adv e = Some (b, e1)"
    by (cases "adv e") auto
  show ?case
  proof (cases b)
    case False
    with "1.hyps" a have y: "y = (acc, e1)" by simp
    show ?thesis
      by (subst collect_loop.simps) (simp add: map_advance_step[where adv=adv and e=e, OF a] False y)
  next
    case True
    obtain x e2 where g: "get e1 = (x, e2)" by (cases "get e1")
    from "1.hyps" a True g have rec: "collect_loop' adv get (acc @ [x]) e2 = Some y"
      by simp
    from "1.IH"[OF rec, of "f x"]
    obtain v' where v': "collect_loop (map_advance adv) (map_get get) (map f (acc @ [x]))
          \<lparr>map_source = e2, mapFunc = f, map_value = f x\<rparr>
        = Some (map f (fst y), \<lparr>map_source = snd y, mapFunc = f, map_value = v'\<rparr>)"
      by blast
    show ?thesis
      apply (subst collect_loop.simps)
      apply (rule exI[of _ v'])
      using v'
      by (simp add: map_advance_step[where adv=adv and e=e, OF a] map_get_step[where get=get and e=e1, OF g] True)
  qed
qed

lemma count_loop_through_map:
  "count_loop adv k e = Some y \<Longrightarrow>
   count_loop (map_advance adv) k \<lparr>map_source = e, mapFunc = f, map_value = v\<rparr>
     = Some (fst y, \<lparr>map_source = snd y, mapFunc = f, map_value = v\<rparr>)"
proof (induction rule: count_loop.raw_induct[rotated 1, consumes 1, case_names 1])
  case (1 count_loop' adv k e y)
  from "1.hyps" obtain b e1 where a: "adv e = Some (b, e1)"
    by (cases "adv e") auto
  show ?case
  proof (cases b)
    case False
    with "1.hyps" a have y: "y = (k, e1)" by simp
    show ?thesis
      by (subst count_loop.simps) (simp add: map_advance_step[where adv=adv and e=e, OF a] False y)
  next
    case True
    from "1.hyps" a True have rec: "count_loop' adv (k + 1) e1 = Some y"
      by simp
    show ?thesis
      apply (subst count_loop.simps)
      using "1.IH"[OF rec]
      by (simp add: map_advance_step[where adv=adv and e=e, OF a] True)
  qed
qed

lemma count_loop_through_inspect:
  "count_loop adv k e = Some y \<Longrightarrow>
   count_loop (inspect_advance adv) k
     \<lparr>inspect_source = e, inspector_call = c, inspector = i0\<rparr>
     = Some (fst y, \<lparr>inspect_source = snd y, inspector_call = c, inspector = i0\<rparr>)"
proof (induction rule: count_loop.raw_induct[rotated 1, consumes 1, case_names 1])
  case (1 count_loop' adv k e y)
  from "1.hyps" obtain b e1 where a: "adv e = Some (b, e1)"
    by (cases "adv e") auto
  show ?case
  proof (cases b)
    case False
    with "1.hyps" a have y: "y = (k, e1)" by simp
    show ?thesis
      by (subst count_loop.simps) (simp add: inspect_advance_step[where adv=adv and e=e, OF a] False y)
  next
    case True
    from "1.hyps" a True have rec: "count_loop' adv (k + 1) e1 = Some y"
      by simp
    show ?thesis
      apply (subst count_loop.simps)
      using "1.IH"[OF rec]
      by (simp add: inspect_advance_step[where adv=adv and e=e, OF a] True)
  qed
qed

lemma seq_collect:
  "\<exists>c'. stream_collect seq_advance seq_get (from_container S)
        = Some (S, seq_at S c' (length S))"
  using collect_loop_seq[of 0 S "[]" 0]
  by (simp add: stream_collect_def from_container_seq_at)

lemma seq_count:
  "stream_count seq_advance (from_container S)
     = Some (of_nat (length S), seq_at S (length S - 1) (length S))"
  using count_loop_seq[of 0 S 0 0]
  by (simp add: stream_count_def from_container_seq_at)

lemma stream_collect_through_map:
  assumes "stream_collect adv get e0 = Some (xs, e1)"
  shows "\<exists>v'. stream_collect (map_advance adv) (map_get get) (stream_map e0 f v0)
          = Some (map f xs, \<lparr>map_source = e1, mapFunc = f, map_value = v'\<rparr>)"
  using collect_loop_through_map[of adv get "[]" e0 "(xs, e1)" f v0] assms
  by (simp add: stream_collect_def stream_map_def)

text \<open>
  C5. For every sequence \<open>S\<close> and function \<open>f\<close>, collecting \<open>from(S)\<close> returns \<open>S\<close> and
  collecting \<open>from(S).map(f)\<close> returns \<open>f\<close> applied to each element of \<open>S\<close>, in order.
  The same holds over any upstream extractor: when collecting the unmapped stream
  returns \<open>xs\<close>, collecting the mapped stream returns \<open>map f xs\<close> and leaves the upstream
  in the same state.
\<close>

theorem map_collect:
  "(\<exists>e v'. stream_collect seq_advance seq_get (from_container S) = Some (S, e)
        \<and> stream_collect (map_advance seq_advance) (map_get seq_get)
              (stream_map (from_container S) f v0)
            = Some (map f S, \<lparr>map_source = e, mapFunc = f, map_value = v'\<rparr>))
   \<and> (stream_collect adv get e0 = Some (xs, e1) \<longrightarrow>
        (\<exists>v'. stream_collect (map_advance adv) (map_get get) (stream_map e0 g w0)
               = Some (map g xs, \<lparr>map_source = e1, mapFunc = g, map_value = v'\<rparr>)))"
proof (intro conjI impI)
  from seq_collect[of S] obtain c' where
    c: "stream_collect seq_advance seq_get (from_container S) = Some (S, seq_at S c' (length S))"
    by blast
  from stream_collect_through_map[OF c, of f v0] c
  show "\<exists>e v'. stream_collect seq_advance seq_get (from_container S) = Some (S, e)
        \<and> stream_collect (map_advance seq_advance) (map_get seq_get)
              (stream_map (from_container S) f v0)
            = Some (map f S, \<lparr>map_source = e, mapFunc = f, map_value = v'\<rparr>)"
    by blast
next
  assume "stream_collect adv get e0 = Some (xs, e1)"
  then show "\<exists>v'. stream_collect (map_advance adv) (map_get get) (stream_map e0 g w0)
               = Some (map g xs, \<lparr>map_source = e1, mapFunc = g, map_value = v'\<rparr>)"
    by (rule stream_collect_through_map)
qed

theorem map_collect_witness:
  "\<exists>e v'. stream_collect seq_advance seq_get (from_container [1, 2, 3 :: int])
            = Some ([1, 2, 3], e)
        \<and> stream_collect (map_advance seq_advance) (map_get seq_get)
              (stream_map (from_container [1, 2, 3 :: int]) (\<lambda>x. x * 10) 0)
            = Some ([10, 20, 30],
                \<lparr>map_source = e, mapFunc = (\<lambda>x. x * 10), map_value = v'\<rparr>)"
proof -
  from seq_collect[of "[1, 2, 3 :: int]"] obtain c' where
    c: "stream_collect seq_advance seq_get (from_container [1, 2, 3 :: int])
          = Some ([1, 2, 3], seq_at [1, 2, 3] c' (length [1, 2, 3 :: int]))"
    by blast
  from map_collect[of "[]" "\<lambda>x. x" "0 :: int" seq_advance seq_get
      "from_container [1, 2, 3 :: int]" "[1, 2, 3]" "seq_at [1, 2, 3] c' (length [1, 2, 3 :: int])"
      "\<lambda>x. x * 10" 0] c
  obtain v' where "stream_collect (map_advance seq_advance) (map_get seq_get)
              (stream_map (from_container [1, 2, 3 :: int]) (\<lambda>x. x * 10) 0)
            = Some (map (\<lambda>x. x * 10) [1, 2, 3],
                \<lparr>map_source = seq_at [1, 2, 3] c' (length [1, 2, 3 :: int]),
                   mapFunc = (\<lambda>x. x * 10), map_value = v'\<rparr>)"
    by blast
  with c show ?thesis by simp
qed

lemma stream_count_through_map:
  assumes "stream_count adv e0 = Some (n, e1)"
  shows "stream_count (map_advance adv) (stream_map e0 f v0) = Some (n, stream_map e1 f v0)"
  using count_loop_through_map[of adv 0 e0 "(n, e1)" f v0] assms
  by (simp add: stream_count_def stream_map_def)

lemma stream_count_through_inspect:
  assumes "stream_count adv e0 = Some (n, e1)"
  shows "stream_count (inspect_advance adv) (stream_inspect e0 c i0)
           = Some (n, stream_inspect e1 c i0)"
  using count_loop_through_inspect[of adv 0 e0 "(n, e1)" c i0] assms
  by (simp add: stream_count_def stream_inspect_def)

text \<open>
  C9. \<open>stream_count\<close> is given the advance operation of its extractor and no get
  operation, as \<^verbatim>\<open>count()\<close> calls nothing but \<^verbatim>\<open>advance()\<close>. For every sequence \<open>S\<close>,
  function \<open>f\<close> and callback \<open>c\<close>, the counts of \<open>from(S)\<close>, of \<open>from(S).map(f)\<close> and
  of \<open>from(S).inspect(c)\<close> return the same number, the length of \<open>S\<close> as a
  \<^verbatim>\<open>size_t\<close>. Afterwards the map stage still holds its initial slot \<open>v0\<close> and
  the inspect stage the initial state \<open>i0\<close> of its callback: neither \<open>f\<close> nor \<open>c\<close> ran.
  The same holds over any upstream extractor whose count returns.
\<close>

theorem count_never_gets:
  "(\<exists>e. stream_count seq_advance (from_container S) = Some (of_nat (length S), e)
       \<and> stream_count (map_advance seq_advance) (stream_map (from_container S) f v0)
           = Some (of_nat (length S), stream_map e f v0)
       \<and> stream_count (inspect_advance seq_advance) (stream_inspect (from_container S) c i0)
           = Some (of_nat (length S), stream_inspect e c i0))
   \<and> (stream_count adv e0 = Some (n, e1) \<longrightarrow>
         stream_count (map_advance adv) (stream_map e0 g w0) = Some (n, stream_map e1 g w0)
       \<and> stream_count (inspect_advance adv) (stream_inspect e0 d j0)
           = Some (n, stream_inspect e1 d j0))"
  using stream_count_through_map[OF seq_count, of S f v0] stream_count_through_inspect[OF seq_count, of S c i0]
    stream_count_through_map[of adv e0 n e1 g w0] stream_count_through_inspect[of adv e0 n e1 d j0]
  by (auto simp: seq_count)

text \<open>
  The callback of the witness counts its own calls: after the count of three elements
  it has been called zero times.
\<close>

theorem count_never_gets_witness:
  "\<exists>e. stream_count seq_advance (from_container [4, 5, 6 :: int]) = Some (3, e)
       \<and> stream_count (map_advance seq_advance)
             (stream_map (from_container [4, 5, 6 :: int]) (\<lambda>x :: int. x * 10) 0)
           = Some (3, \<lparr>map_source = e, mapFunc = (\<lambda>x :: int. x * 10), map_value = 0\<rparr>)
       \<and> stream_count (inspect_advance seq_advance)
             (stream_inspect (from_container [4, 5, 6 :: int]) (\<lambda>(x :: int) calls :: nat. Suc calls) 0)
           = Some (3, \<lparr>inspect_source = e, inspector_call = (\<lambda>(x :: int) calls :: nat. Suc calls),
                        inspector = 0\<rparr>)"
proof -
  have c: "stream_count seq_advance (from_container [4, 5, 6 :: int])
             = Some (3, seq_at [4, 5, 6] 2 3)"
    by (simp add: seq_count numeral_2_eq_2 numeral_3_eq_3)
  from count_never_gets[of "[]" "\<lambda>x. x" "0 :: int" "\<lambda>(x :: int) i :: nat. i" "0 :: nat" seq_advance
      "from_container [4, 5, 6 :: int]" 3 "seq_at [4, 5, 6] 2 3"
      "\<lambda>x :: int. x * 10" 0 "\<lambda>(x :: int) calls :: nat. Suc calls" 0] c
  have "stream_count (map_advance seq_advance)
             (stream_map (from_container [4, 5, 6 :: int]) (\<lambda>x :: int. x * 10) 0)
           = Some (3, stream_map (seq_at [4, 5, 6] 2 3) (\<lambda>x :: int. x * 10) 0)
       \<and> stream_count (inspect_advance seq_advance)
             (stream_inspect (from_container [4, 5, 6 :: int]) (\<lambda>(x :: int) calls :: nat. Suc calls) 0)
           = Some (3, stream_inspect (seq_at [4, 5, 6] 2 3) (\<lambda>(x :: int) calls :: nat. Suc calls) 0)"
    by blast
  with c show ?thesis
    by (simp add: stream_map_def stream_inspect_def)
qed

section \<open>filter\<close>

lemma filter_loop_seq:
  "i \<le> length xs \<Longrightarrow>
   filter_loop seq_advance seq_get
     \<lparr>filter_source = seq_at xs c i, filter_predicate = p\<rparr> x
   = (if p x then Some (True, \<lparr>filter_source = seq_at xs c i, filter_predicate = p\<rparr>)
      else if dropWhile (\<lambda>y. \<not> p y) (drop i xs) = []
      then Some (False, \<lparr>filter_source = seq_at xs (if i < length xs then length xs - 1 else c)
                            (length xs),
                          filter_predicate = p\<rparr>)
      else Some (True, \<lparr>filter_source =
                           seq_at xs (i + length (takeWhile (\<lambda>y. \<not> p y) (drop i xs)))
                             (Suc (i + length (takeWhile (\<lambda>y. \<not> p y) (drop i xs)))),
                         filter_predicate = p\<rparr>))"
proof (induction "length xs - i" arbitrary: i c x)
  case 0
  then have i: "i = length xs" by simp
  show ?case
    unfolding i
    by (subst filter_loop.simps) (simp add: seq_advance_end)
next
  case (Suc n)
  then have lt: "i < length xs" by simp
  have dr: "drop i xs = xs ! i # drop (Suc i) xs"
    using lt by (simp add: Cons_nth_drop_Suc)
  have n: "n = length xs - Suc i" using Suc.hyps(2) by simp
  have le: "Suc i \<le> length xs" using lt by simp
  have last: "\<not> Suc i < length xs \<Longrightarrow> length xs - Suc 0 = i"
    using lt by simp
  note IH = Suc.hyps(1)[OF n le, of i "xs ! i"]
  show ?case
    apply (subst filter_loop.simps)
    using lt IH
    by (auto simp: seq_advance_more[OF lt] seq_get_at dr last)
qed

lemma filter_advance_seq:
  "i \<le> length xs \<Longrightarrow>
   filter_advance seq_advance seq_get
     \<lparr>filter_source = seq_at xs c i, filter_predicate = p\<rparr>
   = (if dropWhile (\<lambda>y. \<not> p y) (drop i xs) = []
      then Some (False, \<lparr>filter_source = seq_at xs (if i < length xs then length xs - 1 else c)
                            (length xs),
                          filter_predicate = p\<rparr>)
      else Some (True, \<lparr>filter_source =
                           seq_at xs (i + length (takeWhile (\<lambda>y. \<not> p y) (drop i xs)))
                             (Suc (i + length (takeWhile (\<lambda>y. \<not> p y) (drop i xs)))),
                         filter_predicate = p\<rparr>))"
proof (cases "i = length xs")
  case True
  show ?thesis
    unfolding True by (simp add: filter_advance_def seq_advance_end)
next
  case False
  assume "i \<le> length xs"
  with False have lt: "i < length xs" by simp
  have dr: "drop i xs = xs ! i # drop (Suc i) xs"
    using lt by (simp add: Cons_nth_drop_Suc)
  have le: "Suc i \<le> length xs" using lt by simp
  have last: "\<not> Suc i < length xs \<Longrightarrow> length xs - Suc 0 = i"
    using lt by simp
  show ?thesis
    using lt filter_loop_seq[OF le, of i p "xs ! i"]
    by (auto simp: filter_advance_def seq_advance_more[OF lt] seq_get_at dr last)
qed

lemma filter_advance_seq_none:
  assumes "i \<le> length xs" and "dropWhile (\<lambda>y. \<not> p y) (drop i xs) = []"
  shows "filter_advance seq_advance seq_get
           \<lparr>filter_source = seq_at xs c i, filter_predicate = p\<rparr>
         = Some (False, \<lparr>filter_source = seq_at xs (if i < length xs then length xs - 1 else c)
                            (length xs),
                          filter_predicate = p\<rparr>)"
  unfolding filter_advance_seq[OF assms(1)] using assms(2) by (rule if_P)

lemma filter_advance_seq_some:
  assumes "i \<le> length xs" and "dropWhile (\<lambda>y. \<not> p y) (drop i xs) \<noteq> []"
    and "j = i + length (takeWhile (\<lambda>y. \<not> p y) (drop i xs))"
  shows "filter_advance seq_advance seq_get
           \<lparr>filter_source = seq_at xs c i, filter_predicate = p\<rparr>
         = Some (True, \<lparr>filter_source = seq_at xs j (Suc j), filter_predicate = p\<rparr>)"
  unfolding filter_advance_seq[OF assms(1)] assms(3) using assms(2) by (rule if_not_P)

lemma filter_first_index:
  assumes "i \<le> length xs" and "dropWhile (\<lambda>y. \<not> p y) (drop i xs) \<noteq> []"
  defines "j \<equiv> i + length (takeWhile (\<lambda>y. \<not> p y) (drop i xs))"
  shows "j < length xs" and "p (xs ! j)"
    and "filter p (drop i xs) = xs ! j # filter p (drop (Suc j) xs)"
proof -
  let ?q = "\<lambda>y. \<not> p y"
  let ?t = "takeWhile ?q (drop i xs)"
  have d: "dropWhile ?q (drop i xs) = drop j xs"
    by (simp add: dropWhile_eq_drop j_def add.commute)
  with assms(2) show lt: "j < length xs" by (simp add: not_le[symmetric])
  have c: "drop j xs = xs ! j # drop (Suc j) xs"
    using lt by (simp add: Cons_nth_drop_Suc)
  have "\<not> ?q (hd (dropWhile ?q (drop i xs)))"
    using assms(2) by (rule hd_dropWhile)
  then show pj: "p (xs ! j)" by (simp add: d c)
  have "filter p (drop i xs) = filter p (?t @ dropWhile ?q (drop i xs))"
    by simp
  also have "\<dots> = filter p ?t @ filter p (drop j xs)"
    by (simp only: filter_append d)
  also have "filter p ?t = []"
    by (rule filter_False) (auto dest: set_takeWhileD)
  finally show "filter p (drop i xs) = xs ! j # filter p (drop (Suc j) xs)"
    using pj c by simp
qed

lemma filter_none_left:
  "dropWhile (\<lambda>y. \<not> p y) ys = [] \<Longrightarrow> filter p ys = []"
  by (induction ys) (auto split: if_splits)

lemma all_loop_filter_seq:
  "i \<le> length xs \<Longrightarrow>
   \<exists>e. all_loop (filter_advance seq_advance seq_get) (filter_get seq_get) p
          \<lparr>filter_source = seq_at xs c i, filter_predicate = p\<rparr>
        = Some (True, e)"
proof (induction "length xs - i" arbitrary: i c rule: less_induct)
  case less
  let ?q = "\<lambda>y. \<not> p y"
  show ?case
  proof (cases "dropWhile ?q (drop i xs) = []")
    case True
    show ?thesis
      by (subst all_loop.simps) (simp add: filter_advance_seq_none[OF less.prems True])
  next
    case False
    define j where "j = i + length (takeWhile ?q (drop i xs))"
    have lt: "j < length xs" and pj: "p (xs ! j)"
      using filter_first_index[OF less.prems False] by (simp_all add: j_def)
    have le: "Suc j \<le> length xs" using lt by simp
    have dec: "length xs - Suc j < length xs - i" using lt by (simp add: j_def)
    from less.hyps[OF dec le, of j]
    obtain e where e: "all_loop (filter_advance seq_advance seq_get) (filter_get seq_get) p
          \<lparr>filter_source = seq_at xs j (Suc j), filter_predicate = p\<rparr>
        = Some (True, e)" by blast
    show ?thesis
      apply (subst all_loop.simps)
      apply (rule exI[of _ e])
      using e pj
      by (simp add: filter_advance_seq_some[OF less.prems False j_def]
            filter_get_def seq_get_at)
  qed
qed

lemma collect_loop_filter_seq:
  "i \<le> length xs \<Longrightarrow>
   \<exists>e. collect_loop (filter_advance seq_advance seq_get) (filter_get seq_get) acc
          \<lparr>filter_source = seq_at xs c i, filter_predicate = p\<rparr>
        = Some (acc @ filter p (drop i xs), e)"
proof (induction "length xs - i" arbitrary: i c acc rule: less_induct)
  case less
  let ?q = "\<lambda>y. \<not> p y"
  show ?case
  proof (cases "dropWhile ?q (drop i xs) = []")
    case True
    show ?thesis
      by (subst collect_loop.simps)
         (simp add: filter_advance_seq_none[OF less.prems True] filter_none_left[OF True])
  next
    case False
    define j where "j = i + length (takeWhile ?q (drop i xs))"
    have lt: "j < length xs"
      and f: "filter p (drop i xs) = xs ! j # filter p (drop (Suc j) xs)"
      using filter_first_index[OF less.prems False] by (simp_all add: j_def)
    have le: "Suc j \<le> length xs" using lt by simp
    have dec: "length xs - Suc j < length xs - i" using lt by (simp add: j_def)
    from less.hyps[OF dec le, of "acc @ [xs ! j]" j]
    obtain e where e: "collect_loop (filter_advance seq_advance seq_get) (filter_get seq_get)
          (acc @ [xs ! j])
          \<lparr>filter_source = seq_at xs j (Suc j), filter_predicate = p\<rparr>
        = Some ((acc @ [xs ! j]) @ filter p (drop (Suc j) xs), e)" by blast
    show ?thesis
      apply (subst collect_loop.simps)
      apply (rule exI[of _ e])
      using e
      by (simp add: filter_advance_seq_some[OF less.prems False j_def]
            filter_get_def seq_get_at f)
  qed
qed

lemma all_exhausted:
  "adv e = Some (False, e1) \<Longrightarrow> stream_all adv get q e = Some (True, e1)"
  unfolding stream_all_def by (subst all_loop.simps) simp

text \<open>
  C8. For every sequence \<open>S\<close> and predicate \<open>p\<close>, \<open>from(S).filter(p).all(p)\<close> returns
  true. The elements the filter stage retains are those of \<open>S\<close> that satisfy \<open>p\<close>, in
  order: collecting the stage returns \<open>filter p S\<close>. Over any extractor whose first
  advance returns false, \<open>all\<close> returns true whatever the predicate, which covers the
  empty stream.
\<close>

theorem filter_then_all:
  "(\<exists>e. stream_all (filter_advance seq_advance seq_get) (filter_get seq_get) p
           (stream_filter (from_container S) p)
         = Some (True, e))
   \<and> (\<exists>e. stream_collect (filter_advance seq_advance seq_get) (filter_get seq_get)
             (stream_filter (from_container S) p)
           = Some (filter p S, e))
   \<and> (adv e0 = Some (False, e1) \<longrightarrow> stream_all adv get q e0 = Some (True, e1))"
  using all_loop_filter_seq[of 0 S p 0] collect_loop_filter_seq[of 0 S "[]" 0 p]
    all_exhausted[of adv e0 e1 get q]
  by (simp add: stream_all_def stream_collect_def stream_filter_def from_container_seq_at)

theorem filter_then_all_witness:
  "(\<exists>e. stream_all (filter_advance seq_advance seq_get) (filter_get seq_get) (\<lambda>x. 3 < x)
           (stream_filter (from_container [5, 6, 1, 2, 9 :: int]) (\<lambda>x. 3 < x))
         = Some (True, e))
   \<and> (\<exists>e. stream_collect (filter_advance seq_advance seq_get) (filter_get seq_get)
             (stream_filter (from_container [5, 6, 1, 2, 9 :: int]) (\<lambda>x. 3 < x))
           = Some ([5, 6, 9], e))
   \<and> stream_all seq_advance seq_get (\<lambda>x :: int. False) (from_container [])
       = Some (True, from_container [])"
proof -
  have h: "seq_advance (from_container ([] :: int list)) = Some (False, from_container [])"
    by (simp add: seq_advance_def from_container_def)
  from filter_then_all[of "\<lambda>x. 3 < x" "[5, 6, 1, 2, 9 :: int]" seq_advance
      "from_container ([] :: int list)" "from_container []" seq_get "\<lambda>x. False"] h
  show ?thesis by simp
qed

section \<open>Exhaustion is permanent\<close>

lemma spent_advance:
  "spent adv s \<Longrightarrow> \<exists>s'. adv s = Some (False, s') \<and> spent adv s'"
  by (erule spent.cases) blast

lemma sticky_spent: "sticky adv \<Longrightarrow> adv s = Some (False, s') \<Longrightarrow> spent adv s'"
  by (simp add: sticky_def)

lemma seq_advance_False:
  "seq_advance s = Some (False, s') \<Longrightarrow> s' = s"
  by (auto simp: seq_advance_def split: if_splits)

lemma spent_seq: "seq_advance s = Some (False, s) \<Longrightarrow> spent seq_advance s"
  by (coinduction) auto

lemma sticky_seq: "sticky seq_advance"
  unfolding sticky_def
proof (intro allI impI)
  fix s s' :: "'a SequenceStreamExtractor"
  assume a: "seq_advance s = Some (False, s')"
  then have "s' = s" by (rule seq_advance_False)
  with a show "spent seq_advance s'" by (simp add: spent_seq)
qed

subsection \<open>take\<close>

lemma spent_take_zero: "limit s = 0 \<Longrightarrow> spent (take_advance adv) s"
  by (coinduction) (auto simp: take_advance_def)

lemma spent_take: "spent adv (take_source s) \<Longrightarrow> spent (take_advance adv) s"
proof (coinduction arbitrary: s)
  case spent
  from spent_advance[OF spent] obtain u where
    u: "adv (take_source s) = Some (False, u)" and su: "spent adv u" by blast
  show ?case
  proof (cases "limit s = 0")
    case True
    with spent show ?thesis by (auto simp: take_advance_def)
  next
    case False
    with u su show ?thesis by (auto simp: take_advance_def)
  qed
qed

lemma sticky_take: "sticky adv \<Longrightarrow> sticky (take_advance adv)"
  unfolding sticky_def[of "take_advance adv"]
proof (intro allI impI)
  fix s s' :: "'a TakeStreamExtractor"
  assume st: "sticky adv" and a: "take_advance adv s = Some (False, s')"
  show "spent (take_advance adv) s'"
  proof (cases "limit s = 0")
    case True
    with a have "s' = s" by (simp add: take_advance_def)
    with True show ?thesis by (simp add: spent_take_zero)
  next
    case False
    with a obtain u where u: "adv (take_source s) = Some (False, u)"
      and s': "s' = s\<lparr>take_source := u, limit := limit s - 1\<rparr>"
      by (auto simp: take_advance_def split: option.splits)
    from sticky_spent[OF st u] have "spent adv (take_source s')" by (simp add: s')
    then show ?thesis by (rule spent_take)
  qed
qed

subsection \<open>takeWhile\<close>

lemma spent_takewhile: "\<not> taking s \<Longrightarrow> spent (takewhile_advance adv get) s"
  by (coinduction) (auto simp: takewhile_advance_def)

lemma takewhile_False:
  "takewhile_advance adv get s = Some (False, s') \<Longrightarrow> \<not> taking s'"
  by (auto simp: takewhile_advance_def Let_def split: if_splits option.splits prod.splits)

lemma sticky_takewhile: "sticky (takewhile_advance adv get)"
  unfolding sticky_def by (blast intro: spent_takewhile dest: takewhile_False)

subsection \<open>map and inspect\<close>

lemma spent_map: "spent adv (map_source s) \<Longrightarrow> spent (map_advance adv) s"
proof (coinduction arbitrary: s)
  case spent
  from spent_advance[OF spent] show ?case by (auto simp: map_advance_def)
qed

lemma sticky_map: "sticky adv \<Longrightarrow> sticky (map_advance adv)"
  unfolding sticky_def[of "map_advance adv"]
proof (intro allI impI)
  fix s s' :: "('a, 'b, 'c) MapStreamExtractor"
  assume st: "sticky adv" and a: "map_advance adv s = Some (False, s')"
  then obtain u where u: "adv (map_source s) = Some (False, u)"
    and s': "s' = s\<lparr>map_source := u\<rparr>"
    by (auto simp: map_advance_def split: option.splits)
  from sticky_spent[OF st u] have "spent adv (map_source s')" by (simp add: s')
  then show "spent (map_advance adv) s'" by (rule spent_map)
qed

lemma spent_inspect: "spent adv (inspect_source s) \<Longrightarrow> spent (inspect_advance adv) s"
proof (coinduction arbitrary: s)
  case spent
  from spent_advance[OF spent] show ?case by (auto simp: inspect_advance_def)
qed

lemma sticky_inspect: "sticky adv \<Longrightarrow> sticky (inspect_advance adv)"
  unfolding sticky_def[of "inspect_advance adv"]
proof (intro allI impI)
  fix s s' :: "('a, 'b, 'c) InspectStreamExtractor"
  assume st: "sticky adv" and a: "inspect_advance adv s = Some (False, s')"
  then obtain u where u: "adv (inspect_source s) = Some (False, u)"
    and s': "s' = s\<lparr>inspect_source := u\<rparr>"
    by (auto simp: inspect_advance_def split: option.splits)
  from sticky_spent[OF st u] have "spent adv (inspect_source s')" by (simp add: s')
  then show "spent (inspect_advance adv) s'" by (rule spent_inspect)
qed

subsection \<open>skip\<close>

lemma skip_advance_spent_step:
  assumes "spent adv (skip_source s)"
  shows "\<exists>s'. skip_advance adv s = Some (False, s') \<and> spent adv (skip_source s')"
proof -
  from spent_advance[OF assms] obtain u where
    u: "adv (skip_source s) = Some (False, u)" and su: "spent adv u" by blast
  show ?thesis
    by (subst skip_advance.simps) (simp add: u su)
qed

lemma spent_skip: "spent adv (skip_source s) \<Longrightarrow> spent (skip_advance adv) s"
proof (coinduction arbitrary: s)
  case spent
  from skip_advance_spent_step[OF spent] show ?case by blast
qed

lemma skip_advance_False:
  "sticky adv \<Longrightarrow> skip_advance adv s = Some (False, s') \<Longrightarrow> spent adv (skip_source s')"
proof (induction adv s rule: skip_advance.induct)
  case (1 adv s)
  from "1.prems"(2) obtain b u where u: "adv (skip_source s) = Some (b, u)"
    by (subst (asm) skip_advance.simps) (auto split: if_splits option.splits)
  show ?case
  proof (cases "skipCount s \<noteq> 0 \<and> b")
    case True
    with "1.prems"(2) u
    have r: "skip_advance adv (s\<lparr>skip_source := u, skipCount := skipCount s - 1\<rparr>)
               = Some (False, s')"
      by (subst (asm) skip_advance.simps) simp
    from True u have "skipCount s \<noteq> 0" and "adv (skip_source s) = Some (b, u)"
      and "(b, u) = (b, u)" and "\<not> \<not> b" by simp_all
    from "1.IH"[OF this "1.prems"(1) r] show ?thesis .
  next
    case False
    with "1.prems"(2) u have b: "\<not> b" and s': "skip_source s' = u"
      by (subst (asm) skip_advance.simps, auto split: if_splits)+
    from b u "1.prems"(1) show ?thesis by (simp add: s' sticky_spent)
  qed
qed

lemma sticky_skip: "sticky adv \<Longrightarrow> sticky (skip_advance adv)"
  unfolding sticky_def[of "skip_advance adv"]
  by (blast intro: spent_skip dest: skip_advance_False)

subsection \<open>skipWhile\<close>

lemma skipwhile_advance_spent_step:
  assumes "spent adv (skipwhile_source s)"
  shows "\<exists>s'. skipwhile_advance adv get s = Some (False, s')
           \<and> spent adv (skipwhile_source s')"
proof -
  from spent_advance[OF assms] obtain u where
    u: "adv (skipwhile_source s) = Some (False, u)" and su: "spent adv u" by blast
  show ?thesis
  proof (cases "skipping s")
    case True
    then have "skipwhile_loop adv get s = Some (s\<lparr>skipwhile_source := u\<rparr>)"
      by (subst skipwhile_loop.simps) (simp add: u)
    with True su show ?thesis by (simp add: skipwhile_advance_def)
  next
    case False
    with u su show ?thesis by (simp add: skipwhile_advance_def)
  qed
qed

lemma spent_skipwhile:
  "spent adv (skipwhile_source s) \<Longrightarrow> spent (skipwhile_advance adv get) s"
proof (coinduction arbitrary: s)
  case spent
  from skipwhile_advance_spent_step[OF spent] show ?case by blast
qed

lemma skipwhile_loop_exit:
  "skipwhile_loop adv get s = Some s' \<Longrightarrow> sticky adv \<Longrightarrow>
     (\<not> skipping s \<longrightarrow> s' = s)
   \<and> (skipping s' \<longrightarrow> skipping s \<and> spent adv (skipwhile_source s'))"
proof (induction rule: skipwhile_loop.raw_induct[rotated 1, consumes 1, case_names 1])
  case (1 loop adv get s s')
  show ?case
  proof (cases "skipping s")
    case False
    with "1.hyps" show ?thesis by simp
  next
    case True
    with "1.hyps" obtain b u where u: "adv (skipwhile_source s) = Some (b, u)"
      by (cases "adv (skipwhile_source s)") auto
    show ?thesis
    proof (cases b)
      case False
      with "1.hyps" True u have "s' = s\<lparr>skipwhile_source := u\<rparr>" by simp
      with True False u "1.prems" show ?thesis by (simp add: sticky_spent)
    next
      case b: True
      obtain x u' where g: "get u = (x, u')" by (cases "get u")
      let ?s2 = "s\<lparr>skipwhile_source := u', skipping := skipwhile_predicate s x\<rparr>"
      from "1.hyps" True u b g have r: "loop adv get ?s2 = Some s'" by simp
      from "1.IH"[OF r "1.prems"] True show ?thesis by auto
    qed
  qed
qed

lemma skipwhile_advance_False:
  assumes "sticky adv" and "skipwhile_advance adv get s = Some (False, s')"
  shows "spent adv (skipwhile_source s')"
proof (cases "skipping s")
  case True
  with assms(2) have l: "skipwhile_loop adv get s = Some s'" and sk: "skipping s'"
    by (auto simp: skipwhile_advance_def split: option.splits)
  from skipwhile_loop_exit[OF l assms(1)] sk show ?thesis by simp
next
  case False
  with assms(2) obtain u where "adv (skipwhile_source s) = Some (False, u)"
    and "skipwhile_source s' = u"
    by (auto simp: skipwhile_advance_def split: option.splits)
  with assms(1) show ?thesis by (simp add: sticky_spent)
qed

lemma sticky_skipwhile: "sticky adv \<Longrightarrow> sticky (skipwhile_advance adv get)"
  unfolding sticky_def[of "skipwhile_advance adv get"]
  by (blast intro: spent_skipwhile dest: skipwhile_advance_False)

subsection \<open>filter\<close>

lemma spent_filter: "spent adv (filter_source s) \<Longrightarrow> spent (filter_advance adv get) s"
proof (coinduction arbitrary: s)
  case spent
  from spent_advance[OF spent] show ?case by (auto simp: filter_advance_def)
qed

lemma filter_loop_False:
  "filter_loop adv get s x = Some y \<Longrightarrow> sticky adv \<Longrightarrow>
     \<not> fst y \<Longrightarrow> spent adv (filter_source (snd y))"
proof (induction rule: filter_loop.raw_induct[rotated 1, consumes 1, case_names 1])
  case (1 loop adv get s x y)
  show ?case
  proof (cases "filter_predicate s x")
    case True
    with "1.hyps" "1.prems"(2) show ?thesis by auto
  next
    case False
    with "1.hyps" obtain b u where u: "adv (filter_source s) = Some (b, u)"
      by (cases "adv (filter_source s)") auto
    show ?thesis
    proof (cases b)
      case False
      with "1.hyps" \<open>\<not> filter_predicate s x\<close> u have "y = (False, s\<lparr>filter_source := u\<rparr>)"
        by simp
      with False u "1.prems"(1) show ?thesis by (simp add: sticky_spent)
    next
      case True
      obtain x' u' where g: "get u = (x', u')" by (cases "get u")
      from "1.hyps" \<open>\<not> filter_predicate s x\<close> u True g
      have r: "loop adv get (s\<lparr>filter_source := u'\<rparr>) x' = Some y" by simp
      from "1.IH"[OF r "1.prems"] show ?thesis .
    qed
  qed
qed

lemma filter_advance_False:
  assumes "sticky adv" and "filter_advance adv get s = Some (False, s')"
  shows "spent adv (filter_source s')"
proof -
  from assms(2) obtain b u where u: "adv (filter_source s) = Some (b, u)"
    by (cases "adv (filter_source s)") (auto simp: filter_advance_def)
  show ?thesis
  proof (cases b)
    case False
    with assms(2) u have "filter_source s' = u" by (auto simp: filter_advance_def)
    with False u assms(1) show ?thesis by (simp add: sticky_spent)
  next
    case True
    obtain x u' where g: "get u = (x, u')" by (cases "get u")
    from assms(2) u True g
    have "filter_loop adv get (s\<lparr>filter_source := u'\<rparr>) x = Some (False, s')"
      by (simp add: filter_advance_def)
    from filter_loop_False[OF this assms(1)] show ?thesis by simp
  qed
qed

lemma sticky_filter: "sticky adv \<Longrightarrow> sticky (filter_advance adv get)"
  unfolding sticky_def[of "filter_advance adv get"]
  by (blast intro: spent_filter dest: filter_advance_False)

subsection \<open>Stream handles\<close>

lemma next_spent:
  assumes "spent adv e"
  shows "\<exists>e'. stream_next adv get e = Some (None, e') \<and> spent adv e'"
  using spent_advance[OF assms] by (auto simp: stream_next_def)

lemma repeat_next_spent:
  "spent adv e \<Longrightarrow> \<exists>e'. repeat_next adv get k e = Some (replicate k None, e')"
proof (induction k arbitrary: e)
  case 0
  show ?case by simp
next
  case (Suc k)
  from next_spent[OF Suc.prems, of get] obtain e1 where
    n: "stream_next adv get e = Some (None, e1)" and s1: "spent adv e1" by blast
  from Suc.IH[OF s1] obtain e2 where "repeat_next adv get k e1 = Some (replicate k None, e2)"
    by blast
  with n show ?case by simp
qed

lemma next_None_spent:
  assumes "sticky adv" and "stream_next adv get e = Some (None, e')"
  shows "spent adv e'"
proof -
  from assms(2) have "adv e = Some (False, e')"
    by (auto simp: stream_next_def split: option.splits if_splits prod.splits)
  with assms(1) show ?thesis by (rule sticky_spent)
qed

lemma count_loop_spent:
  "count_loop adv k e = Some y \<Longrightarrow> sticky adv \<Longrightarrow> spent adv (snd y)"
proof (induction rule: count_loop.raw_induct[rotated 1, consumes 1, case_names 1])
  case (1 loop adv k e y)
  from "1.hyps" obtain b e1 where a: "adv e = Some (b, e1)"
    by (cases "adv e") auto
  show ?case
  proof (cases b)
    case False
    with "1.hyps" a have "y = (k, e1)" by simp
    with False a "1.prems" show ?thesis by (simp add: sticky_spent)
  next
    case True
    with "1.hyps" a have "loop adv (k + 1) e1 = Some y" by simp
    from "1.IH"[OF this "1.prems"] show ?thesis .
  qed
qed

lemma collect_loop_spent:
  "collect_loop adv get acc e = Some y \<Longrightarrow> sticky adv \<Longrightarrow> spent adv (snd y)"
proof (induction rule: collect_loop.raw_induct[rotated 1, consumes 1, case_names 1])
  case (1 loop adv get acc e y)
  from "1.hyps" obtain b e1 where a: "adv e = Some (b, e1)"
    by (cases "adv e") auto
  show ?case
  proof (cases b)
    case False
    with "1.hyps" a have "y = (acc, e1)" by simp
    with False a "1.prems" show ?thesis by (simp add: sticky_spent)
  next
    case True
    obtain x e2 where g: "get e1 = (x, e2)" by (cases "get e1")
    from "1.hyps" a True g have "loop adv get (acc @ [x]) e2 = Some y" by simp
    from "1.IH"[OF this "1.prems"] show ?thesis .
  qed
qed

lemma exhausted_handle:
  assumes "sticky adv"
  shows "stream_next adv get e = Some (None, e') \<Longrightarrow>
           \<exists>e''. repeat_next adv get k e' = Some (replicate k None, e'')"
    and "stream_count adv e = Some (n, e') \<Longrightarrow>
           \<exists>e''. repeat_next adv get k e' = Some (replicate k None, e'')"
    and "stream_collect adv get e = Some (xs, e') \<Longrightarrow>
           \<exists>e''. repeat_next adv get k e' = Some (replicate k None, e'')"
proof -
  show "stream_next adv get e = Some (None, e') \<Longrightarrow>
           \<exists>e''. repeat_next adv get k e' = Some (replicate k None, e'')"
    by (rule repeat_next_spent) (rule next_None_spent[OF assms])
  show "stream_count adv e = Some (n, e') \<Longrightarrow>
           \<exists>e''. repeat_next adv get k e' = Some (replicate k None, e'')"
    using count_loop_spent[of adv 0 e "(n, e')", OF _ assms]
    by (simp add: stream_count_def repeat_next_spent)
  show "stream_collect adv get e = Some (xs, e') \<Longrightarrow>
           \<exists>e''. repeat_next adv get k e' = Some (replicate k None, e'')"
    using collect_loop_spent[of adv get "[]" e "(xs, e')", OF _ assms]
    by (simp add: stream_collect_def repeat_next_spent)
qed

text \<open>
  C6. Exhaustion is permanent on every stream handle. An extractor is sticky when each
  false return of its advance leaves a state on which advance returns false for ever.
  The sequence extractor is sticky, and each of the seven stages is sticky over a
  sticky upstream, so the extractor of every handle that \<open>from\<close> and the chaining
  methods build is sticky. On a handle with a sticky extractor, once \<open>next()\<close> has
  returned empty, or \<open>count()\<close> or \<open>collect()\<close> has returned, any number \<open>k\<close> of further
  calls of \<open>next()\<close> return, and each returns empty.
\<close>

theorem exhaustion_is_permanent:
  "sticky seq_advance
   \<and> (sticky adv \<longrightarrow>
          sticky (skip_advance adv)
        \<and> sticky (skipwhile_advance adv get)
        \<and> sticky (take_advance adv)
        \<and> sticky (takewhile_advance adv get)
        \<and> sticky (filter_advance adv get)
        \<and> sticky (map_advance adv)
        \<and> sticky (inspect_advance adv))
   \<and> (sticky adv \<longrightarrow>
          (stream_next adv get e = Some (None, e') \<longrightarrow>
             (\<exists>e''. repeat_next adv get k e' = Some (replicate k None, e'')))
        \<and> (stream_count adv e = Some (n, e') \<longrightarrow>
             (\<exists>e''. repeat_next adv get k e' = Some (replicate k None, e'')))
        \<and> (stream_collect adv get e = Some (xs, e') \<longrightarrow>
             (\<exists>e''. repeat_next adv get k e' = Some (replicate k None, e''))))"
proof (intro conjI impI)
  show "sticky seq_advance" by (rule sticky_seq)
next
  assume "sticky adv"
  then show "sticky (skip_advance adv)" by (rule sticky_skip)
next
  assume "sticky adv"
  then show "sticky (skipwhile_advance adv get)" by (rule sticky_skipwhile)
next
  assume "sticky adv"
  then show "sticky (take_advance adv)" by (rule sticky_take)
next
  show "sticky (takewhile_advance adv get)" by (rule sticky_takewhile)
next
  assume "sticky adv"
  then show "sticky (filter_advance adv get)" by (rule sticky_filter)
next
  assume "sticky adv"
  then show "sticky (map_advance adv)" by (rule sticky_map)
next
  assume "sticky adv"
  then show "sticky (inspect_advance adv)" by (rule sticky_inspect)
next
  assume "sticky adv" and "stream_next adv get e = Some (None, e')"
  then show "\<exists>e''. repeat_next adv get k e' = Some (replicate k None, e'')"
    by (rule exhausted_handle(1))
next
  assume "sticky adv" and "stream_count adv e = Some (n, e')"
  then show "\<exists>e''. repeat_next adv get k e' = Some (replicate k None, e'')"
    by (rule exhausted_handle(2))
next
  assume "sticky adv" and "stream_collect adv get e = Some (xs, e')"
  then show "\<exists>e''. repeat_next adv get k e' = Some (replicate k None, e'')"
    by (rule exhausted_handle(3))
qed

text \<open>
  The handle \<open>from([1,2,3]).filter(x > 1).take(1)\<close>: its first \<open>next()\<close> returns \<open>2\<close>,
  its second returns empty, and so do three more. On a fresh copy of the handle,
  \<open>count()\<close> returns \<open>1\<close> and \<open>collect()\<close> returns \<open>[2]\<close>, and every \<open>next()\<close> after
  either returns empty.
\<close>

theorem exhaustion_is_permanent_witness:
  "(\<exists>e1 e2.
      stream_next (take_advance (filter_advance seq_advance seq_get))
        (take_get (filter_get seq_get))
        (stream_take (stream_filter (from_container [1, 2, 3 :: int]) (\<lambda>x. 1 < x)) 1)
      = Some (Some 2, e1)
    \<and> stream_next (take_advance (filter_advance seq_advance seq_get))
        (take_get (filter_get seq_get)) e1
      = Some (None, e1)
    \<and> repeat_next (take_advance (filter_advance seq_advance seq_get))
        (take_get (filter_get seq_get)) 3 e1
      = Some ([None, None, None], e2))
   \<and> (\<exists>e1 e2.
      stream_count (take_advance (filter_advance seq_advance seq_get))
        (stream_take (stream_filter (from_container [1, 2, 3 :: int]) (\<lambda>x. 1 < x)) 1)
      = Some (1, e1)
    \<and> repeat_next (take_advance (filter_advance seq_advance seq_get))
        (take_get (filter_get seq_get)) 2 e1
      = Some ([None, None], e2))
   \<and> (\<exists>e1 e2.
      stream_collect (take_advance (filter_advance seq_advance seq_get))
        (take_get (filter_get seq_get))
        (stream_take (stream_filter (from_container [1, 2, 3 :: int]) (\<lambda>x. 1 < x)) 1)
      = Some ([2], e1)
    \<and> repeat_next (take_advance (filter_advance seq_advance seq_get))
        (take_get (filter_get seq_get)) 2 e1
      = Some ([None, None], e2))"
proof -
  let ?adv = "take_advance (filter_advance seq_advance seq_get)
    :: (int SequenceStreamExtractor, int) FilterStreamExtractor TakeStreamExtractor advance"
  let ?get = "take_get (filter_get seq_get)
    :: ((int SequenceStreamExtractor, int) FilterStreamExtractor TakeStreamExtractor, int) get"
  let ?h = "stream_take (stream_filter (from_container [1, 2, 3 :: int]) (\<lambda>x. 1 < x)) 1"
  let ?e1 = "\<lparr>take_source = \<lparr>filter_source = seq_at [1, 2, 3 :: int] (Suc 0) 2,
                                 filter_predicate = (\<lambda>x. 1 < x)\<rparr>, limit = 0\<rparr>"
  have s0: "sticky (seq_advance :: int SequenceStreamExtractor advance)"
    by (rule exhaustion_is_permanent[THEN conjunct1])
  have s1: "sticky (filter_advance seq_advance seq_get
      :: (int SequenceStreamExtractor, int) FilterStreamExtractor advance)"
    by (rule exhaustion_is_permanent[THEN conjunct2, THEN conjunct1, THEN mp, OF s0,
          THEN conjunct2, THEN conjunct2, THEN conjunct2, THEN conjunct2, THEN conjunct1])
  have s2: "sticky ?adv"
    by (rule exhaustion_is_permanent[THEN conjunct2, THEN conjunct1, THEN mp, OF s1,
          THEN conjunct2, THEN conjunct2, THEN conjunct1])
  have le: "0 \<le> length [1, 2, 3 :: int]" by simp
  have a1: "?adv ?h = Some (True, ?e1)"
    by (simp add: take_advance_def stream_take_def stream_filter_def from_container_seq_at
          filter_advance_seq[OF le] numeral_2_eq_2)
  have a2: "?adv ?e1 = Some (False, ?e1)"
    by (simp add: take_advance_def)
  have g1: "?get ?e1 = (2, ?e1)"
    by (simp add: take_get_def filter_get_def seq_get_at)
  have n1: "stream_next ?adv ?get ?h = Some (Some 2, ?e1)"
    by (simp add: stream_next_def a1 g1)
  have n2: "stream_next ?adv ?get ?e1 = Some (None, ?e1)"
    by (simp add: stream_next_def a2)
  have c2: "count_loop ?adv 1 ?e1 = Some (1, ?e1)"
    by (subst count_loop.simps) (simp add: a2)
  have c1: "stream_count ?adv ?h = Some (1, ?e1)"
    unfolding stream_count_def by (subst count_loop.simps) (simp add: a1 c2)
  have l2: "collect_loop ?adv ?get [2] ?e1 = Some ([2], ?e1)"
    by (subst collect_loop.simps) (simp add: a2)
  have l1: "stream_collect ?adv ?get ?h = Some ([2], ?e1)"
    unfolding stream_collect_def by (subst collect_loop.simps) (simp add: a1 g1 l2)
  have r2: "replicate 2 None = [None, None :: int option]" by (simp add: numeral_2_eq_2)
  have r3: "replicate 3 None = [None, None, None :: int option]" by (simp add: numeral_3_eq_3)
  from exhaustion_is_permanent[where adv = ?adv and get = ?get and e = ?e1 and e' = ?e1
      and k = 3] s2 n2
  obtain e2 where "repeat_next ?adv ?get 3 ?e1 = Some (replicate 3 None, e2)"
    by blast
  with n1 n2 have p1: "\<exists>e1 e2. stream_next ?adv ?get ?h = Some (Some 2, e1)
      \<and> stream_next ?adv ?get e1 = Some (None, e1)
      \<and> repeat_next ?adv ?get 3 e1 = Some ([None, None, None], e2)"
    unfolding r3 by blast
  from exhaustion_is_permanent[where adv = ?adv and get = ?get and e = ?h and e' = ?e1
      and k = 2 and n = 1] s2 c1
  obtain e3 where "repeat_next ?adv ?get 2 ?e1 = Some (replicate 2 None, e3)"
    by blast
  with c1 have p2: "\<exists>e1 e2. stream_count ?adv ?h = Some (1, e1)
      \<and> repeat_next ?adv ?get 2 e1 = Some ([None, None], e2)"
    unfolding r2 by blast
  from exhaustion_is_permanent[where adv = ?adv and get = ?get and e = ?h and e' = ?e1
      and k = 2 and xs = "[2]"] s2 l1
  obtain e4 where "repeat_next ?adv ?get 2 ?e1 = Some (replicate 2 None, e4)"
    by blast
  with l1 have p3: "\<exists>e1 e2. stream_collect ?adv ?get ?h = Some ([2], e1)
      \<and> repeat_next ?adv ?get 2 e1 = Some ([None, None], e2)"
    unfolding r2 by blast
  from p1 p2 p3 show ?thesis by (intro conjI)
qed

section \<open>nth\<close>

lemma nth_zero: "stream_nth adv get 0 e = stream_next adv get e"
  by (subst stream_nth.simps) simp

lemma nth_step:
  "n \<noteq> 0 \<Longrightarrow> adv e = Some (True, e1) \<Longrightarrow>
     stream_nth adv get n e = stream_nth adv get (n - 1) e1"
  by (subst stream_nth.simps) simp

lemma nth_stop:
  "n \<noteq> 0 \<Longrightarrow> adv e = Some (False, e1) \<Longrightarrow>
     stream_nth adv get n e = stream_next adv get e1"
  by (subst stream_nth.simps) simp

lemma nth_discards:
  "repeat_advance adv (unat n) e = Some (replicate (unat n) True, e') \<Longrightarrow>
     stream_nth adv get n e = stream_next adv get e'"
proof (induction "unat n" arbitrary: n e)
  case 0
  then have "n = 0" by (simp add: unat_eq_0)
  with 0 show ?case by (simp add: nth_zero)
next
  case (Suc m)
  from Suc.hyps(2) have nz: "n \<noteq> 0" by auto
  have m: "m = unat (n - 1)" using Suc.hyps(2) nz by (simp add: unat_minus_one)
  from Suc.prems Suc.hyps(2)[symmetric] obtain e1 where
    a: "adv e = Some (True, e1)"
    and r: "repeat_advance adv m e1 = Some (replicate m True, e')"
    by (auto split: option.splits)
  from Suc.hyps(1)[OF m, of e1] r m
  have "stream_nth adv get (n - 1) e1 = stream_next adv get e'" by simp
  with nth_step[where adv = adv and e = e and get = get, OF nz a] show ?case by simp
qed

lemma nth_early:
  "sticky adv \<Longrightarrow> k < unat n \<Longrightarrow>
   repeat_advance adv (Suc k) e = Some (replicate k True @ [False], e') \<Longrightarrow>
     \<exists>e''. stream_nth adv get n e = Some (None, e'')"
proof (induction k arbitrary: n e)
  case 0
  from "0.prems"(2) have nz: "n \<noteq> 0" by auto
  from "0.prems"(3) have a: "adv e = Some (False, e')"
    by (auto split: option.splits)
  from sticky_spent[OF "0.prems"(1) a] have "spent adv e'" .
  from next_spent[OF this, of get] nth_stop[where adv = adv and e = e and get = get, OF nz a] show ?case by auto
next
  case (Suc k)
  from Suc.prems(2) have nz: "n \<noteq> 0" by auto
  have lt: "k < unat (n - 1)" using Suc.prems(2) nz by (simp add: unat_minus_one)
  from Suc.prems(3) obtain e1 where a: "adv e = Some (True, e1)"
    and r: "repeat_advance adv (Suc k) e1 = Some (replicate k True @ [False], e')"
    by (auto split: option.splits)
  from Suc.IH[OF Suc.prems(1) lt r] nth_step[where adv = adv and e = e and get = get, OF nz a] show ?case by simp
qed

lemma nth_seq:
  "i \<le> length xs \<Longrightarrow>
   stream_nth seq_advance seq_get n (seq_at xs c i)
   = Some (if i + unat n < length xs
           then (Some (xs ! (i + unat n)), seq_at xs (i + unat n) (Suc (i + unat n)))
           else (None, seq_at xs (if i < length xs then length xs - 1 else c) (length xs)))"
proof (induction "unat n" arbitrary: n i c)
  case 0
  then have n: "n = 0" by (simp add: unat_eq_0)
  show ?case
  proof (cases "i = length xs")
    case True
    show ?thesis
      unfolding n True by (simp add: nth_zero stream_next_def seq_advance_end)
  next
    case False
    with "0.prems" have lt: "i < length xs" by simp
    show ?thesis
      unfolding n using lt
      by (simp add: nth_zero stream_next_def seq_advance_more[OF lt] seq_get_at)
  qed
next
  case (Suc m)
  from Suc.hyps(2) have nz: "n \<noteq> 0" by auto
  have m: "m = unat (n - 1)" using Suc.hyps(2) nz by (simp add: unat_minus_one)
  show ?case
  proof (cases "i = length xs")
    case True
    show ?thesis
      unfolding True
      by (simp add: nth_stop[where adv = seq_advance and e = "seq_at xs c (length xs)", OF nz seq_advance_end] stream_next_def seq_advance_end)
  next
    case False
    with Suc.prems have lt: "i < length xs" by simp
    have le: "Suc i \<le> length xs" using lt by simp
    have last: "\<not> Suc i < length xs \<Longrightarrow> length xs - Suc 0 = i"
      using lt by simp
    have un: "unat n = Suc (unat (n - 1))" using Suc.hyps(2) m by simp
    show ?thesis
      using Suc.hyps(1)[OF m le, of i] lt
      by (auto simp: nth_step[where adv = seq_advance and e = "seq_at xs c i", OF nz seq_advance_more[OF lt]] un last)
  qed
qed

text \<open>
  C7. On a sequence extractor with \<^verbatim>\<open>next\<close> at position \<open>i\<close> of \<open>S\<close>, \<open>nth(n)\<close> returns the
  element at position \<open>i + n\<close>, the \<open>(n+1)\<close>-th remaining one, and returns empty when
  fewer than \<open>n + 1\<close> elements remain; on \<open>from(S)\<close> that is element \<open>n\<close> of \<open>S\<close>. On any
  extractor: \<open>nth(0)\<close> is \<open>next()\<close>; when \<open>n\<close> advances in a row succeed, \<open>nth(n)\<close> is
  \<open>next()\<close> on the state they leave, with no call of get for the discarded elements;
  when an advance among the first \<open>n\<close> returns false and the extractor is sticky,
  \<open>nth(n)\<close> returns empty.
\<close>

theorem nth_behaviour:
  "(i \<le> length S \<longrightarrow>
      (\<exists>e. stream_nth seq_advance seq_get n (seq_at S c i)
            = Some (if i + unat n < length S then Some (S ! (i + unat n)) else None, e)))
   \<and> (\<exists>e. stream_nth seq_advance seq_get n (from_container S)
            = Some (if unat n < length S then Some (S ! unat n) else None, e))
   \<and> stream_nth adv get 0 e0 = stream_next adv get e0
   \<and> (repeat_advance adv (unat n) e0 = Some (replicate (unat n) True, e1) \<longrightarrow>
        stream_nth adv get n e0 = stream_next adv get e1)
   \<and> (sticky adv \<and> k < unat n
        \<and> repeat_advance adv (Suc k) e0 = Some (replicate k True @ [False], e1) \<longrightarrow>
        (\<exists>e2. stream_nth adv get n e0 = Some (None, e2)))"
proof (intro conjI impI)
  assume "i \<le> length S"
  then show "\<exists>e. stream_nth seq_advance seq_get n (seq_at S c i)
            = Some (if i + unat n < length S then Some (S ! (i + unat n)) else None, e)"
    by (simp add: nth_seq)
next
  show "\<exists>e. stream_nth seq_advance seq_get n (from_container S)
            = Some (if unat n < length S then Some (S ! unat n) else None, e)"
    using nth_seq[of 0 S n 0] by (simp add: from_container_seq_at)
next
  show "stream_nth adv get 0 e0 = stream_next adv get e0" by (rule nth_zero)
next
  assume "repeat_advance adv (unat n) e0 = Some (replicate (unat n) True, e1)"
  then show "stream_nth adv get n e0 = stream_next adv get e1" by (rule nth_discards)
next
  assume "sticky adv \<and> k < unat n
        \<and> repeat_advance adv (Suc k) e0 = Some (replicate k True @ [False], e1)"
  then show "\<exists>e2. stream_nth adv get n e0 = Some (None, e2)"
    using nth_early[of adv k n e0 e1 get] by blast
qed

text \<open>
  On \<open>[5,6,1,2,9]\<close>: \<open>nth(2)\<close> is \<open>1\<close>, after two discarding advances and a \<open>next()\<close>;
  with the cursor at position 3, \<open>nth(1)\<close> is \<open>9\<close> and \<open>nth(2)\<close> is empty. On \<open>[5]\<close>,
  \<open>nth(3)\<close> is empty: the second advance fails.
\<close>

theorem nth_behaviour_witness:
  "(\<exists>e. stream_nth seq_advance seq_get 2 (from_container [5, 6, 1, 2, 9 :: int])
         = Some (Some 1, e))
   \<and> (\<exists>e. stream_nth seq_advance seq_get 1 (seq_at [5, 6, 1, 2, 9 :: int] 2 3)
         = Some (Some 9, e))
   \<and> (\<exists>e. stream_nth seq_advance seq_get 2 (seq_at [5, 6, 1, 2, 9 :: int] 2 3)
         = Some (None, e))
   \<and> stream_nth seq_advance seq_get 2 (from_container [5, 6, 1, 2, 9 :: int])
       = stream_next seq_advance seq_get (seq_at [5, 6, 1, 2, 9] 1 2)
   \<and> (\<exists>e. stream_nth seq_advance seq_get 3 (from_container [5 :: int]) = Some (None, e))"
proof -
  let ?S = "[5, 6, 1, 2, 9 :: int]"
  have u1: "unat (1 :: size_t) = 1" and u2: "unat (2 :: size_t) = 2"
    and u3: "unat (3 :: size_t) = 3" by simp_all
  have le: "(3 :: nat) \<le> length ?S" by simp
  have st: "sticky (seq_advance :: int SequenceStreamExtractor advance)" by (rule sticky_seq)
  have r2: "repeat_advance seq_advance (unat (2 :: size_t)) (from_container ?S)
              = Some (replicate (unat (2 :: size_t)) True, seq_at ?S 1 2)"
    unfolding u2
    by (simp add: numeral_2_eq_2 from_container_seq_at seq_advance_more)
  have r1: "repeat_advance seq_advance (Suc 1) (from_container [5 :: int])
              = Some (replicate 1 True @ [False], seq_at [5] 0 1)"
    using seq_advance_end[of "[5 :: int]" 0]
    by (simp add: from_container_seq_at seq_advance_more)
  have k: "(1 :: nat) < unat (3 :: size_t)" by simp
  note a = nth_behaviour[of 3 ?S 1 2 seq_advance seq_get "from_container ?S" "seq_at ?S 1 2" 0]
  note b = nth_behaviour[of 3 ?S 2 2 seq_advance seq_get "from_container ?S" "seq_at ?S 1 2" 0]
  note c = nth_behaviour[of 0 "[5 :: int]" 3 0 seq_advance seq_get "from_container [5 :: int]"
      "seq_at [5 :: int] 0 1" 1]
  have p1: "\<exists>e. stream_nth seq_advance seq_get 1 (seq_at ?S 2 3) = Some (Some 9, e)"
    using a le by (simp add: u1)
  have p2: "\<exists>e. stream_nth seq_advance seq_get 2 (from_container ?S) = Some (Some 1, e)"
    using b by (simp add: u2)
  have p3: "\<exists>e. stream_nth seq_advance seq_get 2 (seq_at ?S 2 3) = Some (None, e)"
    using b le by (simp add: u2)
  have p4: "stream_nth seq_advance seq_get 2 (from_container ?S)
       = stream_next seq_advance seq_get (seq_at ?S 1 2)"
    using b r2 by blast
  have p5: "\<exists>e. stream_nth seq_advance seq_get 3 (from_container [5 :: int]) = Some (None, e)"
    using c st k r1 by blast
  from p1 p2 p3 p4 p5 show ?thesis by blast
qed

end
